theory Spec2Isabelle
  imports Main "HOL-Library.Sublist"
begin

section \<open>Python values, exceptions and dictionaries\<close>

text \<open>
  The program is one Python module, \<^verbatim>\<open>main.py\<close>: a table \<^verbatim>\<open>FUNCTION_RULES\<close> of
  (compiled pattern, function name, argument names, argument types) and one handler,
  \<^verbatim>\<open>execute_query\<close>. A Python \<^verbatim>\<open>str\<close> is modelled as a \<^typ>\<open>string\<close>, each
  \<^typ>\<open>char\<close> standing for the code point of the same number (so the model covers the
  queries whose code points are below 256). Exceptions are values.
\<close>

datatype exn = ValueError | IndexError | TypeError

datatype pyval = PInt int | PStr string

text \<open>
  A \<^verbatim>\<open>dict\<close> keeps its keys in insertion order; \<^verbatim>\<open>d[k] = v\<close> overwrites the value of
  a key that is present, in place, and appends a new key at the end.
\<close>

type_synonym dict = "(string \<times> pyval) list"

fun dict_set :: "string \<Rightarrow> pyval \<Rightarrow> dict \<Rightarrow> dict" where
  "dict_set k v [] = [(k, v)]"
| "dict_set k v (p # ps) = (if fst p = k then (k, v) # ps else p # dict_set k v ps)"

text \<open>Indexing a list or tuple with a non-negative index: \<^verbatim>\<open>xs[i]\<close>.\<close>

definition list_get :: "'a list \<Rightarrow> nat \<Rightarrow> exn + 'a" where
  "list_get xs i = (if i < length xs then Inr (xs ! i) else Inl IndexError)"

section \<open>The regular expressions of the rule table\<close>

text \<open>
  The patterns of \<^verbatim>\<open>FUNCTION_RULES\<close> are built from literal text, the character
  classes \<^verbatim>\<open>\d\<close>, \<^verbatim>\<open>[\d\-]\<close>, \<^verbatim>\<open>[\d:]\<close> and \<^verbatim>\<open>.\<close>, the greedy repetitions
  \<^verbatim>\<open>+\<close>, \<^verbatim>\<open>*\<close> and \<^verbatim>\<open>{4}\<close> of a class, and capture groups. Alternation is
  included so that a rule table can hold a group that takes no part in a match.
\<close>

definition is_digit :: "char \<Rightarrow> bool" where
  "is_digit c \<longleftrightarrow> c \<in> set ''0123456789''"

definition newline :: char where
  "newline = CHR 0x0A"

datatype citem = CDigit | CChar char

datatype atom = Any | Class "citem list"

fun citem_ok :: "citem \<Rightarrow> char \<Rightarrow> bool" where
  "citem_ok CDigit c = is_digit c"
| "citem_ok (CChar x) c = (c = x)"

text \<open>Without the DOTALL flag, \<^verbatim>\<open>.\<close> matches every character but a newline.\<close>

fun atom_ok :: "atom \<Rightarrow> char \<Rightarrow> bool" where
  "atom_ok Any c = (c \<noteq> newline)"
| "atom_ok (Class items) c = list_ex (\<lambda>i. citem_ok i c) items"

datatype regex =
    Lit string
  | Rep atom nat "nat option"
  | Group regex
  | Seq regex regex
  | Alt regex regex

primrec ngroups :: "regex \<Rightarrow> nat" where
  "ngroups (Lit l) = 0"
| "ngroups (Rep a lo hi) = 0"
| "ngroups (Group r) = Suc (ngroups r)"
| "ngroups (Seq a b) = ngroups a + ngroups b"
| "ngroups (Alt a b) = ngroups a + ngroups b"

text \<open>
  \<open>ms r s\<close> lists every way in which \<open>r\<close> matches at the start of \<open>s\<close>, in the order
  in which the backtracking matcher of \<^verbatim>\<open>re\<close> tries them: a greedy repetition takes
  the longest run first (\<open>rep_max\<close> characters: the whole run of the class, or the
  upper bound when that is smaller) and gives characters back one at a time, an
  alternation tries its left branch first. Each entry is the tuple of the groups of \<open>r\<close> (numbered by
  their opening parenthesis; \<open>None\<close> for a group that took no part) and the rest of the
  string.
\<close>

definition rep_max :: "atom \<Rightarrow> nat option \<Rightarrow> string \<Rightarrow> nat" where
  "rep_max a hi s =
     (let n = length (takeWhile (atom_ok a) s)
      in case hi of None \<Rightarrow> n | Some h \<Rightarrow> min h n)"

primrec ms :: "regex \<Rightarrow> string \<Rightarrow> (string option list \<times> string) list" where
  "ms (Lit l) s = (if prefix l s then [([], drop (length l) s)] else [])"
| "ms (Rep a lo hi) s = map (\<lambda>k. ([], drop k s)) (rev [lo..<Suc (rep_max a hi s)])"
| "ms (Group r) s =
     map (\<lambda>(c, rest). (Some (take (length s - length rest) s) # c, rest)) (ms r s)"
| "ms (Seq a b) s =
     concat (map (\<lambda>(c1, r1). map (\<lambda>(c2, r2). (c1 @ c2, r2)) (ms b r1)) (ms a s))"
| "ms (Alt a b) s =
     map (\<lambda>(c, rest). (c @ replicate (ngroups b) None, rest)) (ms a s) @
     map (\<lambda>(c, rest). (replicate (ngroups a) None @ c, rest)) (ms b s)"

text \<open>
  \<^verbatim>\<open>pattern.match(q)\<close> followed by \<^verbatim>\<open>match.groups()\<close>: the first way to match at
  offset 0, whatever follows it in the string; \<open>None\<close> when there is none.
\<close>

definition re_match :: "regex \<Rightarrow> string \<Rightarrow> string option list option" where
  "re_match r s = (case ms r s of [] \<Rightarrow> None | (c, rest) # others \<Rightarrow> Some c)"

section \<open>The rule table\<close>

datatype pytype = TInt | TStr

record rule =
  pattern :: regex
  func_name :: string
  arg_names :: "string list"
  arg_types :: "pytype list"

definition digits1 :: regex where
  "digits1 = Group (Rep (Class [CDigit]) 1 None)"

definition rule_ticket :: rule where
  "rule_ticket = \<lparr>
     pattern = Seq (Lit ''What is the status of ticket '') (Seq digits1 (Lit ''?'')),
     func_name = ''get_ticket_status'',
     arg_names = [''ticket_id''],
     arg_types = [TInt]\<rparr>"

definition rule_meeting :: rule where
  "rule_meeting = \<lparr>
     pattern = Seq (Lit ''Schedule a meeting on '')
              (Seq (Group (Rep (Class [CDigit, CChar CHR ''-'']) 1 None))
              (Seq (Lit '' at '')
              (Seq (Group (Rep (Class [CDigit, CChar CHR '':'']) 1 None))
              (Seq (Lit '' in '')
              (Seq (Group (Rep Any 0 None)) (Lit ''.'')))))),
     func_name = ''schedule_meeting'',
     arg_names = [''date'', ''time'', ''meeting_room''],
     arg_types = [TStr, TStr, TStr]\<rparr>"

definition rule_expense :: rule where
  "rule_expense = \<lparr>
     pattern = Seq (Lit ''Show my expense balance for employee '') (Seq digits1 (Lit ''.'')),
     func_name = ''get_expense_balance'',
     arg_names = [''employee_id''],
     arg_types = [TInt]\<rparr>"

definition rule_bonus :: rule where
  "rule_bonus = \<lparr>
     pattern = Seq (Lit ''Calculate performance bonus for employee '')
              (Seq digits1
              (Seq (Lit '' for '')
              (Seq (Group (Rep (Class [CDigit]) 4 (Some 4))) (Lit ''.'')))),
     func_name = ''calculate_performance_bonus'',
     arg_names = [''employee_id'', ''current_year''],
     arg_types = [TInt, TInt]\<rparr>"

definition rule_issue :: rule where
  "rule_issue = \<lparr>
     pattern = Seq (Lit ''Report office issue '')
              (Seq digits1
              (Seq (Lit '' for the '')
              (Seq (Group (Rep Any 0 None)) (Lit '' department.'')))),
     func_name = ''report_office_issue'',
     arg_names = [''issue_code'', ''department''],
     arg_types = [TInt, TStr]\<rparr>"

definition FUNCTION_RULES :: "rule list" where
  "FUNCTION_RULES = [rule_ticket, rule_meeting, rule_expense, rule_bonus, rule_issue]"

section \<open>The built-in conversions \<^verbatim>\<open>int\<close> and \<^verbatim>\<open>str\<close>\<close>

text \<open>
  \<^verbatim>\<open>int(s)\<close> on a string: surrounding whitespace is dropped, one sign is allowed, and
  the rest is decimal digits, single underscores allowed between two digits; anything
  else raises \<^verbatim>\<open>ValueError\<close>. CPython also refuses, with \<^verbatim>\<open>ValueError\<close>, a literal
  of more than \<^verbatim>\<open>sys.get_int_max_str_digits()\<close> digits; that limit is a setting of the
  interpreter (4300 unless changed, 0 for no limit, otherwise at least 640, and never
  checked for a literal of 640 digits or fewer) and is the parameter \<open>lim\<close> of the
  model. Underscores and the sign do not count as digits.

  Among the code points below 256 the whitespace that \<^verbatim>\<open>int\<close> drops is the ASCII
  whitespace (9 to 13 and 32) and the two non-ASCII spaces 133 and 160.
\<close>

definition py_isspace :: "char \<Rightarrow> bool" where
  "py_isspace c \<longleftrightarrow> (of_char c :: nat) \<in> set [9, 10, 11, 12, 13, 32, 133, 160]"

definition strip :: "string \<Rightarrow> string" where
  "strip s = rev (dropWhile py_isspace (rev (dropWhile py_isspace s)))"

fun int_literal_ok :: "bool \<Rightarrow> string \<Rightarrow> bool" where
  "int_literal_ok prev_digit [] = prev_digit"
| "int_literal_ok prev_digit (c # cs) =
     (if is_digit c then int_literal_ok True cs
      else if c = CHR ''_'' \<and> prev_digit then int_literal_ok False cs
      else False)"

definition digit_val :: "char \<Rightarrow> nat" where
  "digit_val c = of_char c - 48"

definition dec_value :: "string \<Rightarrow> nat" where
  "dec_value ds = foldl (\<lambda>a c. 10 * a + digit_val c) 0 ds"

definition default_max_str_digits :: nat where
  "default_max_str_digits = 4300"

definition py_int :: "nat \<Rightarrow> string \<Rightarrow> exn + pyval" where
  "py_int lim s =
     (let t = strip s;
          neg = (t \<noteq> [] \<and> hd t = CHR ''-'');
          body = (if t \<noteq> [] \<and> (hd t = CHR ''-'' \<or> hd t = CHR ''+'') then tl t else t);
          ds = filter is_digit body
      in if \<not> int_literal_ok False body then Inl ValueError
         else if 640 < length ds \<and> 0 < lim \<and> lim < length ds then Inl ValueError
         else Inr (PInt ((if neg then - 1 else 1) * int (dec_value ds))))"

text \<open>
  \<^verbatim>\<open>arg_types[i](extracted_values[i])\<close> once both have been read: \<^verbatim>\<open>str\<close> is the
  identity on a string and gives \<^verbatim>\<open>'None'\<close> on \<^verbatim>\<open>None\<close>; \<^verbatim>\<open>int(None)\<close> raises
  \<^verbatim>\<open>TypeError\<close>.
\<close>

fun coerce :: "nat \<Rightarrow> pytype \<Rightarrow> string option \<Rightarrow> exn + pyval" where
  "coerce lim TStr None = Inr (PStr ''None'')"
| "coerce lim TStr (Some s) = Inr (PStr s)"
| "coerce lim TInt None = Inl TypeError"
| "coerce lim TInt (Some s) = py_int lim s"

section \<open>\<^verbatim>\<open>json.dumps\<close> of the arguments\<close>

text \<open>
  With its default settings \<^verbatim>\<open>json.dumps\<close> writes a dict as
  \<^verbatim>\<open>{"k1": v1, "k2": v2}\<close>, an int in decimal and a string between double quotes,
  every character outside the printable ASCII range escaped.
\<close>

definition hex_digit :: "nat \<Rightarrow> char" where
  "hex_digit n = ''0123456789abcdef'' ! (n mod 16)"

definition json_escape_char :: "char \<Rightarrow> string" where
  "json_escape_char c =
     (if c = CHR 0x22 then [CHR 0x5C, CHR 0x22]
      else if c = CHR 0x5C then [CHR 0x5C, CHR 0x5C]
      else if c = CHR 0x0A then [CHR 0x5C, CHR ''n'']
      else if c = CHR 0x0D then [CHR 0x5C, CHR ''r'']
      else if c = CHR 0x09 then [CHR 0x5C, CHR ''t'']
      else if c = CHR 0x08 then [CHR 0x5C, CHR ''b'']
      else if c = CHR 0x0C then [CHR 0x5C, CHR ''f'']
      else if 32 \<le> (of_char c :: nat) \<and> (of_char c :: nat) \<le> 126 then [c]
      else [CHR 0x5C, CHR ''u'', CHR ''0'', CHR ''0'',
            hex_digit (of_char c div 16), hex_digit (of_char c)])"

definition json_string :: "string \<Rightarrow> string" where
  "json_string s = [CHR 0x22] @ concat (map json_escape_char s) @ [CHR 0x22]"

fun dec_of_nat :: "nat \<Rightarrow> string" where
  "dec_of_nat n =
     (if n < 10 then [hex_digit n] else dec_of_nat (n div 10) @ [hex_digit (n mod 10)])"

text \<open>The equation of \<open>dec_of_nat\<close> is unfolded by hand, one step at a time.\<close>

declare dec_of_nat.simps [simp del]

definition dec_of_int :: "int \<Rightarrow> string" where
  "dec_of_int i = (if i < 0 then CHR ''-'' # dec_of_nat (nat (- i)) else dec_of_nat (nat i))"

fun json_value :: "pyval \<Rightarrow> string" where
  "json_value (PInt i) = dec_of_int i"
| "json_value (PStr s) = json_string s"

fun join :: "string \<Rightarrow> string list \<Rightarrow> string" where
  "join sep [] = []"
| "join sep [x] = x"
| "join sep (x # y # ys) = x @ sep @ join sep (y # ys)"

definition json_dumps :: "dict \<Rightarrow> string" where
  "json_dumps d =
     ''{'' @ join '', '' (map (\<lambda>(k, v). json_string k @ '': '' @ json_value v) d) @ ''}''"

section \<open>The handler \<^verbatim>\<open>execute_query\<close>\<close>

record response =
  name :: string
  arguments :: string

datatype outcome =
    Return response
  | HTTPException nat string
  | Uncaught exn

text \<open>
  The inner loop, \<^verbatim>\<open>for i, name in enumerate(arg_names)\<close>, over the enumerated names
  that are left and the dict built so far. The first exception ends it.
\<close>

fun build_arguments ::
  "nat \<Rightarrow> pytype list \<Rightarrow> string option list \<Rightarrow> (nat \<times> string) list \<Rightarrow> dict \<Rightarrow> exn + dict"
where
  "build_arguments lim tys vals [] d = Inr d"
| "build_arguments lim tys vals ((i, nm) # rest) d =
     (case list_get tys i of
        Inl e \<Rightarrow> Inl e
      | Inr ty \<Rightarrow>
         (case list_get vals i of
            Inl e \<Rightarrow> Inl e
          | Inr v \<Rightarrow>
             (case coerce lim ty v of
                Inl e \<Rightarrow> Inl e
              | Inr x \<Rightarrow> build_arguments lim tys vals rest (dict_set nm x d))))"

text \<open>
  The body of \<^verbatim>\<open>if match:\<close> for one rule: the \<^verbatim>\<open>try\<close> around the inner loop turns
  \<^verbatim>\<open>ValueError\<close> and \<^verbatim>\<open>IndexError\<close> into the 400 response; an exception of another
  class leaves the handler.
\<close>

definition missing_detail :: string where
  "missing_detail = ''Missing query parameter '' @ [CHR 0x27] @ ''q'' @ [CHR 0x27]"

definition mismatch_detail :: string where
  "mismatch_detail = ''Parameter type mismatch''"

definition no_match_detail :: string where
  "no_match_detail = ''No matching function found for the query''"

definition apply_rule :: "nat \<Rightarrow> rule \<Rightarrow> string option list \<Rightarrow> outcome" where
  "apply_rule lim r extracted_values =
     (case build_arguments lim (arg_types r) extracted_values (enumerate 0 (arg_names r)) [] of
        Inl ValueError \<Rightarrow> HTTPException 400 mismatch_detail
      | Inl IndexError \<Rightarrow> HTTPException 400 mismatch_detail
      | Inl TypeError \<Rightarrow> Uncaught TypeError
      | Inr args \<Rightarrow> Return \<lparr>name = func_name r, arguments = json_dumps args\<rparr>)"

text \<open>
  The outer loop over the rules, with the 404 after it: the first rule whose pattern
  matches decides the outcome.
\<close>

fun resolve :: "rule list \<Rightarrow> nat \<Rightarrow> string \<Rightarrow> outcome" where
  "resolve [] lim q = HTTPException 404 no_match_detail"
| "resolve (r # rs) lim q =
     (case re_match (pattern r) q of
        None \<Rightarrow> resolve rs lim q
      | Some extracted_values \<Rightarrow> apply_rule lim r extracted_values)"

text \<open>
  The handler over a rule table: \<^verbatim>\<open>q\<close> is \<^verbatim>\<open>None\<close> when the request has no
  parameter \<^verbatim>\<open>q\<close>. \<open>execute_query\<close> is the handler of the program, over
  \<^verbatim>\<open>FUNCTION_RULES\<close>.
\<close>

definition handle :: "rule list \<Rightarrow> nat \<Rightarrow> string option \<Rightarrow> outcome" where
  "handle rules lim q =
     (case q of
        None \<Rightarrow> HTTPException 400 missing_detail
      | Some s \<Rightarrow> resolve rules lim s)"

definition execute_query :: "nat \<Rightarrow> string option \<Rightarrow> outcome" where
  "execute_query lim q = handle FUNCTION_RULES lim q"

section \<open>Notions used to state the properties\<close>

text \<open>The literal text with which each pattern of the table starts.\<close>

definition lead_ticket :: string where
  "lead_ticket = ''What is the status of ticket ''"

definition lead_meeting :: string where
  "lead_meeting = ''Schedule a meeting on ''"

definition lead_expense :: string where
  "lead_expense = ''Show my expense balance for employee ''"

definition lead_bonus :: string where
  "lead_bonus = ''Calculate performance bonus for employee ''"

definition lead_issue :: string where
  "lead_issue = ''Report office issue ''"

text \<open>The classes \<^verbatim>\<open>[\d\-]\<close> and \<^verbatim>\<open>[\d:]\<close> as predicates.\<close>

definition is_date_char :: "char \<Rightarrow> bool" where
  "is_date_char c \<longleftrightarrow> is_digit c \<or> c = CHR ''-''"

definition is_time_char :: "char \<Rightarrow> bool" where
  "is_time_char c \<longleftrightarrow> is_digit c \<or> c = CHR '':''"

text \<open>
  The elements of a list in the order of their first occurrences: the keys of a dict
  filled from the list.
\<close>

primrec first_occurrences :: "'a list \<Rightarrow> 'a list" where
  "first_occurrences [] = []"
| "first_occurrences (x # xs) = x # filter (\<lambda>y. y \<noteq> x) (first_occurrences xs)"

text \<open>
  A reader of JSON text, for the objects whose values are strings and integers: what
  a client does with the \<open>arguments\<close> string. Whitespace is allowed where JSON
  allows it; a string is read up to its closing quote, with the escapes of JSON; a
  number is an optional minus sign and decimal digits without a leading zero. The
  reader is used only to state that the text written by \<open>json_dumps\<close> is JSON for
  the dict it was written from.
\<close>

definition json_ws :: "char \<Rightarrow> bool" where
  "json_ws c \<longleftrightarrow> c = CHR '' '' \<or> c = CHR 0x09 \<or> c = CHR 0x0A \<or> c = CHR 0x0D"

definition skip_ws :: "string \<Rightarrow> string" where
  "skip_ws s = dropWhile json_ws s"

definition hex_val :: "char \<Rightarrow> nat option" where
  "hex_val c =
     (let n = (of_char c :: nat) in
      if 48 \<le> n \<and> n \<le> 57 then Some (n - 48)
      else if 97 \<le> n \<and> n \<le> 102 then Some (n - 87)
      else if 65 \<le> n \<and> n \<le> 70 then Some (n - 55)
      else None)"

definition simple_escape :: "char \<Rightarrow> char option" where
  "simple_escape e =
     (if e = CHR 0x22 then Some (CHR 0x22)
      else if e = CHR 0x5C then Some (CHR 0x5C)
      else if e = CHR ''/'' then Some (CHR ''/'')
      else if e = CHR ''n'' then Some (CHR 0x0A)
      else if e = CHR ''r'' then Some (CHR 0x0D)
      else if e = CHR ''t'' then Some (CHR 0x09)
      else if e = CHR ''b'' then Some (CHR 0x08)
      else if e = CHR ''f'' then Some (CHR 0x0C)
      else None)"

text \<open>
  The four hexadecimal digits of a \<^verbatim>\<open>\u\<close> escape; a code point of 256 or more has
  no \<^typ>\<open>char\<close> and is refused.
\<close>

definition unicode_escape :: "char \<Rightarrow> char \<Rightarrow> char \<Rightarrow> char \<Rightarrow> char option" where
  "unicode_escape a b c d =
     (case (hex_val a, hex_val b, hex_val c, hex_val d) of
        (Some x, Some y, Some z, Some w) \<Rightarrow>
          (if x = 0 \<and> y = 0 then Some (char_of (16 * z + w)) else None)
      | _ \<Rightarrow> None)"

definition add_char :: "char \<Rightarrow> (string \<times> string) option \<Rightarrow> (string \<times> string) option" where
  "add_char c r = (case r of None \<Rightarrow> None | Some (s, rest) \<Rightarrow> Some (c # s, rest))"

text \<open>The characters of a string after its opening quote, and what follows the closing one.\<close>

fun str_body :: "string \<Rightarrow> (string \<times> string) option" where
  "str_body [] = None"
| "str_body [c] = (if c = CHR 0x22 then Some ([], []) else None)"
| "str_body (c # e # cs) =
     (if c = CHR 0x22 then Some ([], e # cs)
      else if c = CHR 0x5C then
        (if e = CHR ''u'' then
           (case cs of
              h1 # h2 # h3 # h4 # rest \<Rightarrow>
                (case unicode_escape h1 h2 h3 h4 of
                   None \<Rightarrow> None
                 | Some x \<Rightarrow> add_char x (str_body rest))
            | _ \<Rightarrow> None)
         else
           (case simple_escape e of
              None \<Rightarrow> None
            | Some x \<Rightarrow> add_char x (str_body cs)))
      else if (of_char c :: nat) < 32 then None
      else add_char c (str_body (e # cs)))"

definition parse_string :: "string \<Rightarrow> (string \<times> string) option" where
  "parse_string s = (case s of [] \<Rightarrow> None | c # cs \<Rightarrow> if c = CHR 0x22 then str_body cs else None)"

definition parse_nat :: "string \<Rightarrow> (nat \<times> string) option" where
  "parse_nat s =
     (let ds = takeWhile is_digit s in
      if ds = [] \<or> (hd ds = CHR ''0'' \<and> tl ds \<noteq> []) then None
      else Some (dec_value ds, dropWhile is_digit s))"

definition parse_int :: "string \<Rightarrow> (int \<times> string) option" where
  "parse_int s =
     (case s of
        [] \<Rightarrow> None
      | c # cs \<Rightarrow>
         (if c = CHR ''-'' then map_option (\<lambda>(n, rest). (- int n, rest)) (parse_nat cs)
          else map_option (\<lambda>(n, rest). (int n, rest)) (parse_nat s)))"

definition parse_value :: "string \<Rightarrow> (pyval \<times> string) option" where
  "parse_value s =
     (case s of
        [] \<Rightarrow> None
      | c # cs \<Rightarrow>
         (if c = CHR 0x22 then map_option (\<lambda>(x, rest). (PStr x, rest)) (parse_string s)
          else map_option (\<lambda>(i, rest). (PInt i, rest)) (parse_int s)))"

text \<open>
  The members of an object, the first of which starts the text: \<^verbatim>\<open>"key": value\<close>,
  then a comma and the other members, or the closing brace and nothing more. The first
  argument bounds the number of members read.
\<close>

fun members :: "nat \<Rightarrow> string \<Rightarrow> dict option" where
  "members 0 s = None"
| "members (Suc n) s =
     (case parse_string s of
        None \<Rightarrow> None
      | Some (k, s1) \<Rightarrow>
         (case skip_ws s1 of
            [] \<Rightarrow> None
          | c # s2 \<Rightarrow>
             (if c \<noteq> CHR '':'' then None
              else
                (case parse_value (skip_ws s2) of
                   None \<Rightarrow> None
                 | Some (v, s3) \<Rightarrow>
                    (case skip_ws s3 of
                       [] \<Rightarrow> None
                     | d # s4 \<Rightarrow>
                        (if d = CHR ''}'' then (if skip_ws s4 = [] then Some [(k, v)] else None)
                         else if d = CHR '','' then
                           map_option (\<lambda>ms. (k, v) # ms) (members n (skip_ws s4))
                         else None))))))"

definition json_loads :: "string \<Rightarrow> dict option" where
  "json_loads s =
     (case skip_ws s of
        [] \<Rightarrow> None
      | c # s1 \<Rightarrow>
         (if c \<noteq> CHR ''{'' then None
          else
            (case skip_ws s1 of
               [] \<Rightarrow> None
             | d # s2 \<Rightarrow>
                (if d = CHR ''}'' then (if skip_ws s2 = [] then Some [] else None)
                 else members (length s) (skip_ws s1)))))"

text \<open>One member of the object that \<open>json_dumps\<close> writes.\<close>

definition json_member :: "string \<times> pyval \<Rightarrow> string" where
  "json_member p = json_string (fst p) @ '': '' @ json_value (snd p)"

text \<open>The length of the longest run of decimal digits in a string.\<close>

fun max_digit_run :: "string \<Rightarrow> nat" where
  "max_digit_run [] = 0"
| "max_digit_run (c # cs) = max (length (takeWhile is_digit (c # cs))) (max_digit_run cs)"

section \<open>The matcher: membership, length of the group tuple, longer inputs\<close>

lemma in_ms_Lit: "(c, r) \<in> set (ms (Lit l) s) \<longleftrightarrow> c = [] \<and> s = l @ r"
  by (auto simp: prefix_def)

lemma takeWhile_all_append: "list_all P d \<Longrightarrow> takeWhile P (d @ r) = d @ takeWhile P r"
  by (induction d) auto

lemma list_all_take_takeWhile: "k \<le> length (takeWhile P s) \<Longrightarrow> list_all P (take k s)"
proof (induction s arbitrary: k)
  case Nil then show ?case by simp
next
  case (Cons x xs)
  then show ?case by (cases k) (auto split: if_splits)
qed

lemma in_ms_Rep:
  "(c, r) \<in> set (ms (Rep a lo hi) s) \<longleftrightarrow>
     c = [] \<and> (\<exists>d. s = d @ r \<and> list_all (atom_ok a) d \<and> lo \<le> length d \<and>
                  (\<forall>h. hi = Some h \<longrightarrow> length d \<le> h))"
proof
  assume "(c, r) \<in> set (ms (Rep a lo hi) s)"
  then obtain k where k: "lo \<le> k" "k \<le> rep_max a hi s" and c: "c = []" and r: "r = drop k s"
    by (auto simp del: upt_Suc)
  from k(2) have kn: "k \<le> length (takeWhile (atom_ok a) s)" and kh: "\<forall>h. hi = Some h \<longrightarrow> k \<le> h"
    by (auto simp: rep_max_def Let_def split: option.splits)
  from kn have "k \<le> length s"
    using length_takeWhile_le [of "atom_ok a" s] by linarith
  then have len: "length (take k s) = k" by simp
  have "s = take k s @ r" using r by simp
  moreover have "list_all (atom_ok a) (take k s)" using kn by (rule list_all_take_takeWhile)
  ultimately show "c = [] \<and> (\<exists>d. s = d @ r \<and> list_all (atom_ok a) d \<and> lo \<le> length d \<and>
                  (\<forall>h. hi = Some h \<longrightarrow> length d \<le> h))"
    using c k(1) kh len by metis
next
  assume "c = [] \<and> (\<exists>d. s = d @ r \<and> list_all (atom_ok a) d \<and> lo \<le> length d \<and>
                  (\<forall>h. hi = Some h \<longrightarrow> length d \<le> h))"
  then obtain d where c: "c = []" and s: "s = d @ r" and d: "list_all (atom_ok a) d"
    and lo: "lo \<le> length d" and hi: "\<forall>h. hi = Some h \<longrightarrow> length d \<le> h" by blast
  have "length d \<le> length (takeWhile (atom_ok a) s)"
    by (simp add: s takeWhile_all_append [OF d])
  with hi have "length d \<le> rep_max a hi s"
    by (auto simp: rep_max_def Let_def split: option.splits)
  moreover have "r = drop (length d) s" by (simp add: s)
  ultimately have "([], r) \<in> (\<lambda>k. ([], drop k s)) ` {lo..rep_max a hi s}"
    using lo by auto
  then show "(c, r) \<in> set (ms (Rep a lo hi) s)"
    using c by (auto simp del: upt_Suc)
qed

lemma in_ms_Group:
  "(c, r) \<in> set (ms (Group a) s) \<longleftrightarrow>
     (\<exists>c'. (c', r) \<in> set (ms a s) \<and> c = Some (take (length s - length r) s) # c')"
  by auto

lemma in_ms_Seq:
  "(c, r) \<in> set (ms (Seq a b) s) \<longleftrightarrow>
     (\<exists>c1 r1 c2. (c1, r1) \<in> set (ms a s) \<and> (c2, r) \<in> set (ms b r1) \<and> c = c1 @ c2)"
  by force

lemma in_ms_Alt:
  "(c, r) \<in> set (ms (Alt a b) s) \<longleftrightarrow>
     (\<exists>c'. (c', r) \<in> set (ms a s) \<and> c = c' @ replicate (ngroups b) None) \<or>
     (\<exists>c'. (c', r) \<in> set (ms b s) \<and> c = replicate (ngroups a) None @ c')"
  by auto

lemma ms_suffix: "(c, r) \<in> set (ms a s) \<Longrightarrow> \<exists>d. s = d @ r"
proof (induction a arbitrary: c r s)
  case (Lit l) then show ?case by (simp only: in_ms_Lit) blast
next
  case (Rep a lo hi) then show ?case by (simp only: in_ms_Rep) blast
next
  case (Group a) then show ?case by (simp only: in_ms_Group) blast
next
  case (Seq a b)
  then obtain c1 r1 c2 where "(c1, r1) \<in> set (ms a s)" "(c2, r) \<in> set (ms b r1)"
    by (auto simp only: in_ms_Seq)
  with Seq.IH show ?case by (metis append.assoc)
next
  case (Alt a b) then show ?case by (simp only: in_ms_Alt) blast
qed

lemma ms_ngroups: "(c, r) \<in> set (ms a s) \<Longrightarrow> length c = ngroups a"
proof (induction a arbitrary: c r s)
  case (Seq a b)
  then obtain c1 r1 c2 where "(c1, r1) \<in> set (ms a s)" "(c2, r) \<in> set (ms b r1)" "c = c1 @ c2"
    by (auto simp only: in_ms_Seq)
  with Seq.IH show ?case by fastforce
qed auto

lemma ms_append: "(c, r) \<in> set (ms a s) \<Longrightarrow> (c, r @ t) \<in> set (ms a (s @ t))"
proof (induction a arbitrary: c r s)
  case (Lit l) then show ?case by (simp only: in_ms_Lit) simp
next
  case (Rep a lo hi) then show ?case by (simp only: in_ms_Rep) auto
next
  case (Group a)
  then obtain c' where c': "(c', r) \<in> set (ms a s)" and c: "c = Some (take (length s - length r) s) # c'"
    by (auto simp only: in_ms_Group)
  from c' have "(c', r @ t) \<in> set (ms a (s @ t))" by (rule Group.IH)
  moreover have "take (length (s @ t) - length (r @ t)) (s @ t) = take (length s - length r) s"
    by simp
  ultimately show ?case unfolding in_ms_Group c by metis
next
  case (Seq a b)
  then obtain c1 r1 c2 where "(c1, r1) \<in> set (ms a s)" "(c2, r) \<in> set (ms b r1)" "c = c1 @ c2"
    by (auto simp only: in_ms_Seq)
  with Seq.IH show ?case unfolding in_ms_Seq by blast
next
  case (Alt a b) 
  then show ?case unfolding in_ms_Alt by blast
qed

lemma re_match_None: "re_match r s = None \<longleftrightarrow> ms r s = []"
  by (auto simp: re_match_def split: list.splits)

lemma re_match_append: "re_match r s \<noteq> None \<Longrightarrow> re_match r (s @ t) \<noteq> None"
proof -
  assume "re_match r s \<noteq> None"
  then obtain c rest where "(c, rest) \<in> set (ms r s)"
    by (cases "ms r s") (auto simp: re_match_None)
  then have "(c, rest @ t) \<in> set (ms r (s @ t))" by (rule ms_append)
  then show ?thesis by (auto simp: re_match_None)
qed

section \<open>The matcher: the order of the results\<close>

lemma ms_Seq_Lit:
  "ms (Seq (Lit l) r) s = (if prefix l s then ms r (drop (length l) s) else [])"
  by simp

lemma rep_max_le: "rep_max a hi s \<le> length s"
  using length_takeWhile_le [of "atom_ok a" s]
  by (auto simp: rep_max_def Let_def split: option.splits)

lemma ms_Group_Rep:
  "ms (Group (Rep a lo hi)) s =
     map (\<lambda>k. ([Some (take k s)], drop k s)) (rev [lo..<Suc (rep_max a hi s)])"
proof -
  have "k \<le> length s" if "k \<in> set (rev [lo..<Suc (rep_max a hi s)])" for k
    using that rep_max_le [of a hi s] by (auto simp del: upt_Suc)
  then have "map (\<lambda>k. ([Some (take (length s - length (drop k s)) s)], drop k s))
                 (rev [lo..<Suc (rep_max a hi s)])
           = map (\<lambda>k. ([Some (take k s)], drop k s)) (rev [lo..<Suc (rep_max a hi s)])"
    by (intro map_cong refl) simp
  then show ?thesis
    by (simp del: upt_Suc length_drop add: comp_def)
qed

lemma ms_Seq_Group_Rep:
  "ms (Seq (Group (Rep a lo hi)) r) s =
     concat (map (\<lambda>k. map (\<lambda>(c2, r2). (Some (take k s) # c2, r2)) (ms r (drop k s)))
                 (rev [lo..<Suc (rep_max a hi s)]))"
  unfolding ms.simps(4) ms_Group_Rep by (simp del: upt_Suc add: comp_def)

lemma concat_map_Nil: "(\<And>x. x \<in> set xs \<Longrightarrow> f x = []) \<Longrightarrow> concat (map f xs) = []"
  by (induction xs) auto

lemma first_hit:
  assumes "lo \<le> k0" "k0 \<le> m" "\<And>k. k0 < k \<Longrightarrow> k \<le> m \<Longrightarrow> f k = []"
  shows "concat (map f (rev [lo..<Suc m])) = f k0 @ concat (map f (rev [lo..<k0]))"
proof -
  have "[lo..<Suc m] = [lo..<k0] @ [k0] @ [Suc k0..<Suc m]"
  proof -
    have "[lo..<Suc m] = [lo..<k0] @ [k0..<Suc m]"
      using assms(1,2) by (metis le_Suc_ex le_SucI upt_add_eq_append)
    moreover have "[k0..<Suc m] = k0 # [Suc k0..<Suc m]"
      using assms(2) by (simp add: upt_conv_Cons del: upt_Suc)
    ultimately show ?thesis by simp
  qed
  then have "rev [lo..<Suc m] = rev [Suc k0..<Suc m] @ [k0] @ rev [lo..<k0]" by simp
  moreover have "concat (map f (rev [Suc k0..<Suc m])) = []"
    by (rule concat_map_Nil) (use assms(3) in auto)
  ultimately show ?thesis by simp
qed

text \<open>A repetition followed by something that cannot start with a character of the class.\<close>

lemma ms_Seq_Group_Rep_det:
  assumes stop: "\<And>x xs. atom_ok a x \<Longrightarrow> ms r (x # xs) = []"
  shows "ms (Seq (Group (Rep a lo hi)) r) s =
     (let d = takeWhile (atom_ok a) s in
      if lo \<le> length d \<and> (\<forall>h. hi = Some h \<longrightarrow> length d \<le> h)
      then map (\<lambda>(c2, r2). (Some d # c2, r2)) (ms r (dropWhile (atom_ok a) s)) else [])"
proof -
  let ?n = "length (takeWhile (atom_ok a) s)"
  let ?f = "\<lambda>k. map (\<lambda>(c2, r2). (Some (take k s) # c2, r2)) (ms r (drop k s))"
  have short: "?f k = []" if "k < ?n" for k
  proof -
    have "k < length s" using that length_takeWhile_le [of "atom_ok a" s] by linarith
    then have "drop k s = s ! k # drop (Suc k) s" by (simp add: Cons_nth_drop_Suc)
    moreover have "atom_ok a (s ! k)"
    proof -
      have "takeWhile (atom_ok a) s ! k \<in> set (takeWhile (atom_ok a) s)"
        using that by (rule nth_mem)
      then have "atom_ok a (takeWhile (atom_ok a) s ! k)" by (rule set_takeWhileD [THEN conjunct2])
      then show ?thesis using that by (simp add: takeWhile_nth)
    qed
    ultimately show ?thesis using stop by simp
  qed
  have tk: "take ?n s = takeWhile (atom_ok a) s" "drop ?n s = dropWhile (atom_ok a) s"
    by (simp_all add: takeWhile_eq_take [symmetric] dropWhile_eq_drop [symmetric])
  show ?thesis
  proof (cases "lo \<le> ?n \<and> (\<forall>h. hi = Some h \<longrightarrow> ?n \<le> h)")
    case True
    then have m: "rep_max a hi s = ?n"
      by (auto simp: rep_max_def Let_def split: option.splits)
    have "concat (map ?f (rev [lo..<Suc ?n])) = ?f ?n @ concat (map ?f (rev [lo..<?n]))"
      using True by (intro first_hit) auto
    moreover have "concat (map ?f (rev [lo..<?n])) = []"
      by (rule concat_map_Nil) (use short in auto)
    ultimately show ?thesis using True
      by (simp only: ms_Seq_Group_Rep m tk Let_def) simp
  next
    case False
    have "concat (map ?f (rev [lo..<Suc (rep_max a hi s)])) = []"
    proof (rule concat_map_Nil)
      fix k assume "k \<in> set (rev [lo..<Suc (rep_max a hi s)])"
      then have "lo \<le> k" "k \<le> rep_max a hi s" by (auto simp del: upt_Suc)
      with False have "k < ?n"
        by (auto simp: rep_max_def Let_def split: option.splits)
      then show "?f k = []" by (rule short)
    qed
    then show ?thesis using False
      by (simp only: ms_Seq_Group_Rep Let_def) simp
  qed
qed

section \<open>The patterns of the table in closed form\<close>

lemma stop_Lit: "\<not> atom_ok a c \<Longrightarrow> atom_ok a x \<Longrightarrow> ms (Lit (c # l)) (x # xs) = []"
  by auto

lemma stop_Seq_Lit: "\<not> atom_ok a c \<Longrightarrow> atom_ok a x \<Longrightarrow> ms (Seq (Lit (c # l)) r) (x # xs) = []"
  by auto

lemma atom_digit: "atom_ok (Class [CDigit]) = is_digit"
  by (rule ext) simp



lemma atom_date: "atom_ok (Class [CDigit, CChar CHR ''-'']) = is_date_char"
  by (rule ext) (simp add: is_date_char_def)

lemma atom_time: "atom_ok (Class [CDigit, CChar CHR '':'']) = is_time_char"
  by (rule ext) (simp add: is_time_char_def)

lemma not_digit [simp]: "\<not> is_digit CHR ''?''" "\<not> is_digit CHR ''.''" "\<not> is_digit CHR '' ''"
  by (simp_all add: is_digit_def)

lemma not_date_time [simp]: "\<not> is_date_char CHR '' ''" "\<not> is_time_char CHR '' ''"
  by (simp_all add: is_date_char_def is_time_char_def)

text \<open>A group of one class followed by a literal that starts outside the class.\<close>

lemma ms_group_lit:
  assumes "\<not> atom_ok a c"
  shows "ms (Seq (Group (Rep a lo hi)) (Lit (c # l))) s =
     (if lo \<le> length (takeWhile (atom_ok a) s) \<and>
         (\<forall>h. hi = Some h \<longrightarrow> length (takeWhile (atom_ok a) s) \<le> h) \<and>
         prefix (c # l) (dropWhile (atom_ok a) s)
      then [([Some (takeWhile (atom_ok a) s)], drop (Suc (length l)) (dropWhile (atom_ok a) s))]
      else [])"
proof -
  have stop: "\<And>x xs. atom_ok a x \<Longrightarrow> ms (Lit (c # l)) (x # xs) = []"
    using assms by (rule stop_Lit)
  have "ms (Seq (Group (Rep a lo hi)) (Lit (c # l))) s = (let d = takeWhile (atom_ok a) s in
      if lo \<le> length d \<and> (\<forall>h. hi = Some h \<longrightarrow> length d \<le> h)
      then map (\<lambda>(c2, r2). (Some d # c2, r2)) (ms (Lit (c # l)) (dropWhile (atom_ok a) s)) else [])"
    using stop by (rule ms_Seq_Group_Rep_det)
  also have "\<dots> = (if lo \<le> length (takeWhile (atom_ok a) s) \<and>
         (\<forall>h. hi = Some h \<longrightarrow> length (takeWhile (atom_ok a) s) \<le> h) \<and>
         prefix (c # l) (dropWhile (atom_ok a) s)
      then [([Some (takeWhile (atom_ok a) s)], drop (Suc (length l)) (dropWhile (atom_ok a) s))]
      else [])"
    by (simp add: Let_def)
  finally show ?thesis .
qed

lemma ms_group_seq_lit:
  assumes "\<not> atom_ok a c"
  shows "ms (Seq (Group (Rep a lo hi)) (Seq (Lit (c # l)) r)) s =
     (if lo \<le> length (takeWhile (atom_ok a) s) \<and>
         (\<forall>h. hi = Some h \<longrightarrow> length (takeWhile (atom_ok a) s) \<le> h) \<and>
         prefix (c # l) (dropWhile (atom_ok a) s)
      then map (\<lambda>(c2, r2). (Some (takeWhile (atom_ok a) s) # c2, r2))
               (ms r (drop (Suc (length l)) (dropWhile (atom_ok a) s)))
      else [])"
proof -
  have stop: "\<And>x xs. atom_ok a x \<Longrightarrow> ms (Seq (Lit (c # l)) r) (x # xs) = []"
    using assms by (rule stop_Seq_Lit)
  have "ms (Seq (Group (Rep a lo hi)) (Seq (Lit (c # l)) r)) s = (let d = takeWhile (atom_ok a) s in
      if lo \<le> length d \<and> (\<forall>h. hi = Some h \<longrightarrow> length d \<le> h)
      then map (\<lambda>(c2, r2). (Some d # c2, r2)) (ms (Seq (Lit (c # l)) r) (dropWhile (atom_ok a) s)) else [])"
    using stop by (rule ms_Seq_Group_Rep_det)
  also have "\<dots> = (if lo \<le> length (takeWhile (atom_ok a) s) \<and>
         (\<forall>h. hi = Some h \<longrightarrow> length (takeWhile (atom_ok a) s) \<le> h) \<and>
         prefix (c # l) (dropWhile (atom_ok a) s)
      then map (\<lambda>(c2, r2). (Some (takeWhile (atom_ok a) s) # c2, r2))
               (ms r (drop (Suc (length l)) (dropWhile (atom_ok a) s)))
      else [])"
    unfolding ms_Seq_Lit by (auto simp add: Let_def)
  finally show ?thesis .
qed


lemma pattern_ticket: "pattern rule_ticket = Seq (Lit lead_ticket) (Seq digits1 (Lit ''?''))"
  by (simp add: rule_ticket_def lead_ticket_def)

lemma pattern_expense: "pattern rule_expense = Seq (Lit lead_expense) (Seq digits1 (Lit ''.''))"
  by (simp add: rule_expense_def lead_expense_def)

lemma pattern_bonus:
  "pattern rule_bonus = Seq (Lit lead_bonus) (Seq digits1 (Seq (Lit '' for '')
     (Seq (Group (Rep (Class [CDigit]) 4 (Some 4))) (Lit ''.''))))"
  by (simp add: rule_bonus_def lead_bonus_def)

lemma pattern_issue:
  "pattern rule_issue = Seq (Lit lead_issue) (Seq digits1 (Seq (Lit '' for the '')
     (Seq (Group (Rep Any 0 None)) (Lit '' department.''))))"
  by (simp add: rule_issue_def lead_issue_def)

lemma pattern_meeting:
  "pattern rule_meeting = Seq (Lit lead_meeting)
              (Seq (Group (Rep (Class [CDigit, CChar CHR ''-'']) 1 None))
              (Seq (Lit '' at '')
              (Seq (Group (Rep (Class [CDigit, CChar CHR '':'']) 1 None))
              (Seq (Lit '' in '')
              (Seq (Group (Rep Any 0 None)) (Lit ''.''))))))"
  by (simp add: rule_meeting_def lead_meeting_def)

lemma ms_ticket:
  "ms (pattern rule_ticket) q =
     (if prefix lead_ticket q
      then (let s1 = drop (length lead_ticket) q; d = takeWhile is_digit s1 in
            if d \<noteq> [] \<and> prefix ''?'' (dropWhile is_digit s1)
            then [([Some d], drop 1 (dropWhile is_digit s1))] else [])
      else [])"
  unfolding pattern_ticket digits1_def ms_Seq_Lit
  by (simp only: ms_group_lit atom_digit not_digit not_False_eq_True) (simp add: Let_def Suc_le_eq)

lemma ms_expense:
  "ms (pattern rule_expense) q =
     (if prefix lead_expense q
      then (let s1 = drop (length lead_expense) q; d = takeWhile is_digit s1 in
            if d \<noteq> [] \<and> prefix ''.'' (dropWhile is_digit s1)
            then [([Some d], drop 1 (dropWhile is_digit s1))] else [])
      else [])"
  unfolding pattern_expense digits1_def ms_Seq_Lit
  by (simp only: ms_group_lit atom_digit not_digit not_False_eq_True) (simp add: Let_def Suc_le_eq)

lemma ms_bonus:
  "ms (pattern rule_bonus) q =
     (if prefix lead_bonus q
      then (let s1 = drop (length lead_bonus) q; d = takeWhile is_digit s1;
                s2 = drop (length '' for '') (dropWhile is_digit s1); y = takeWhile is_digit s2 in
            if d \<noteq> [] \<and> prefix '' for '' (dropWhile is_digit s1) \<and> length y = 4 \<and>
               prefix ''.'' (dropWhile is_digit s2)
            then [([Some d, Some y], drop 1 (dropWhile is_digit s2))] else [])
      else [])"
  unfolding pattern_bonus digits1_def ms_Seq_Lit
  by (simp only: ms_group_lit ms_group_seq_lit atom_digit not_digit not_False_eq_True)
     (auto simp add: Let_def Suc_le_eq)

lemma ms_issue:
  "ms (pattern rule_issue) q =
     (if prefix lead_issue q
      then (let s1 = drop (length lead_issue) q; d = takeWhile is_digit s1 in
            if d \<noteq> [] \<and> prefix '' for the '' (dropWhile is_digit s1)
            then map (\<lambda>(c2, r2). (Some d # c2, r2))
                   (ms (Seq (Group (Rep Any 0 None)) (Lit '' department.''))
                       (drop (length '' for the '') (dropWhile is_digit s1)))
            else [])
      else [])"
  unfolding pattern_issue digits1_def ms_Seq_Lit
  by (simp only: ms_group_seq_lit atom_digit not_digit not_False_eq_True)
     (auto simp add: Let_def Suc_le_eq simp del: ms.simps)

lemma ms_meeting:
  "ms (pattern rule_meeting) q =
     (if prefix lead_meeting q
      then (let s1 = drop (length lead_meeting) q; d = takeWhile is_date_char s1;
                s2 = drop (length '' at '') (dropWhile is_date_char s1); t = takeWhile is_time_char s2 in
            if d \<noteq> [] \<and> prefix '' at '' (dropWhile is_date_char s1) \<and>
               t \<noteq> [] \<and> prefix '' in '' (dropWhile is_time_char s2)
            then map (\<lambda>(c2, r2). (Some d # Some t # c2, r2))
                   (ms (Seq (Group (Rep Any 0 None)) (Lit ''.''))
                       (drop (length '' in '') (dropWhile is_time_char s2)))
            else [])
      else [])"
  unfolding pattern_meeting ms_Seq_Lit
  by (simp only: ms_group_seq_lit atom_date atom_time not_date_time not_False_eq_True)
     (auto simp add: Let_def Suc_le_eq comp_def case_prod_unfold simp del: ms.simps)

section \<open>The greedy capture before a literal\<close>

lemma takeWhile_stop: "list_all P d \<Longrightarrow> \<not> P x \<Longrightarrow> takeWhile P (d @ x # r) = d"
  by (induction d) auto

lemma dropWhile_stop: "list_all P d \<Longrightarrow> \<not> P x \<Longrightarrow> dropWhile P (d @ x # r) = x # r"
  by (induction d) auto

lemma prefix_straddle:
  assumes "prefix l (x @ rest)" "rest = [] \<or> hd rest \<notin> set l"
  shows "prefix l x"
proof -
  from assms(1) have "prefix l x \<or> (\<exists>us. l = x @ us \<and> prefix us rest)"
    by (simp add: prefix_append)
  then show ?thesis
  proof
    assume "prefix l x" then show ?thesis .
  next
    assume "\<exists>us. l = x @ us \<and> prefix us rest"
    then obtain us where us: "l = x @ us" "prefix us rest" by blast
    show ?thesis
    proof (cases us)
      case Nil
      with us(1) show ?thesis by simp
    next
      case (Cons u us')
      with us(2) have "rest \<noteq> []" "hd rest = u" by (auto simp: prefix_def)
      with assms(2) us(1) Cons show ?thesis by auto
    qed
  qed
qed

lemma rep_max_Any:
  assumes "newline \<notin> set line" "rest = [] \<or> hd rest = newline"
  shows "rep_max Any None (line @ rest) = length line"
proof -
  have "list_all (atom_ok Any) line" using assms(1) by (auto simp: list_all_iff)
  moreover have "takeWhile (atom_ok Any) rest = []" using assms(2) by (cases rest) auto
  ultimately show ?thesis by (simp add: rep_max_def takeWhile_all_append)
qed

lemma ms_greedy_first:
  assumes nl: "newline \<notin> set (room @ l @ tail)"
    and rest: "rest = [] \<or> hd rest = newline"
    and last: "\<forall>j. 0 < j \<longrightarrow> \<not> prefix l (drop j (l @ tail))"
  shows "\<exists>more. ms (Seq (Group (Rep Any 0 None)) (Lit l)) (room @ l @ tail @ rest)
               = ([Some room], tail @ rest) # more"
proof -
  let ?s = "room @ l @ tail @ rest"
  let ?f = "\<lambda>k. map (\<lambda>(c2, r2). (Some (take k ?s) # c2, r2)) (ms (Lit l) (drop k ?s))"
  let ?k0 = "length room"
  have m: "rep_max Any None ?s = length (room @ l @ tail)"
    using rep_max_Any [OF nl rest] by simp
  have none: "?f k = []" if "?k0 < k" "k \<le> length (room @ l @ tail)" for k
  proof -
    define j where "j = k - ?k0"
    have j: "0 < j" "k = ?k0 + j" using that by (simp_all add: j_def)
    have "j \<le> length (l @ tail)" using that j by simp
    then have d: "drop k ?s = drop j (l @ tail) @ rest" using j by simp
    have "\<not> prefix l (drop j (l @ tail) @ rest)"
    proof
      assume "prefix l (drop j (l @ tail) @ rest)"
      moreover have "rest = [] \<or> hd rest \<notin> set l" using rest nl by auto
      ultimately have "prefix l (drop j (l @ tail))" by (rule prefix_straddle)
      with last j(1) show False by blast
    qed
    then show ?thesis unfolding d by simp
  qed
  have "concat (map ?f (rev [0..<Suc (length (room @ l @ tail))])) =
        ?f ?k0 @ concat (map ?f (rev [0..<?k0]))"
    by (rule first_hit) (use none in auto)
  moreover have "?f ?k0 = [([Some room], tail @ rest)]" by simp
  ultimately have "concat (map ?f (rev [0..<Suc (length (room @ l @ tail))])) =
        ([Some room], tail @ rest) # concat (map ?f (rev [0..<?k0]))"
    by (simp only: append_Cons append_Nil)
  then show ?thesis
    unfolding ms_Seq_Group_Rep m by (rule exI)
qed

section \<open>\<^verbatim>\<open>int\<close> on a string of digits\<close>

lemma digit_props:
  assumes "is_digit c"
  shows "\<not> py_isspace c" "c \<noteq> CHR ''-''" "c \<noteq> CHR ''+''" "c \<noteq> CHR ''_''"
  using assms by (auto simp: is_digit_def py_isspace_def)

lemma int_literal_ok_digits: "list_all is_digit d \<Longrightarrow> int_literal_ok b d = (d \<noteq> [] \<or> b)"
  by (induction d arbitrary: b) auto

lemma strip_digits:
  assumes "d \<noteq> []" "list_all is_digit d"
  shows "strip d = d"
proof -
  obtain c cs where d: "d = c # cs" using assms(1) by (cases d) auto
  then have "\<not> py_isspace c" using assms(2) by (simp add: digit_props)
  then have 1: "dropWhile py_isspace d = d" by (simp add: d)
  have "rev d \<noteq> []" using assms(1) by simp
  then obtain e es where r: "rev d = e # es" by (cases "rev d") auto
  then have "e \<in> set d" by (metis list.set_intros(1) set_rev)
  then have "\<not> py_isspace e" using assms(2) by (auto simp: list_all_iff digit_props)
  then have "dropWhile py_isspace (rev d) = rev d" by (simp add: r)
  with 1 show ?thesis by (simp add: strip_def)
qed

lemma py_int_digits:
  assumes "d \<noteq> []" "list_all is_digit d"
  shows "py_int lim d =
     (if 640 < length d \<and> 0 < lim \<and> lim < length d then Inl ValueError
      else Inr (PInt (int (dec_value d))))"
proof -
  obtain c cs where d: "d = c # cs" using assms(1) by (cases d) auto
  then have c: "c \<noteq> CHR ''-''" "c \<noteq> CHR ''+''" using assms(2) by (simp_all add: digit_props)
  have f: "filter is_digit d = d" using assms(2) by (simp add: list_all_iff)
  show ?thesis
    unfolding py_int_def strip_digits [OF assms] Let_def
    using c f assms by (simp add: d int_literal_ok_digits)
qed

section \<open>The text of \<^verbatim>\<open>json.dumps\<close> read back\<close>

lemma hex_table: "list_all (\<lambda>k. hex_val (hex_digit k) = Some k) [0..<16]"
  by code_simp

lemma hex_val_digit: "hex_val (hex_digit n) = Some (n mod 16)"
proof -
  have "n mod 16 \<in> set [0..<16]" by simp
  with hex_table have "hex_val (hex_digit (n mod 16)) = Some (n mod 16)"
    unfolding list_all_iff by blast
  then show ?thesis by (simp add: hex_digit_def)
qed

lemma hex_val_zero: "hex_val CHR ''0'' = Some 0"
  by (simp add: hex_val_def)

lemma unicode_escape_char:
  "unicode_escape CHR ''0'' CHR ''0'' (hex_digit (of_char c div 16)) (hex_digit (of_char c)) = Some c"
proof -
  let ?m = "of_char c :: nat"
  have "?m < 256" by simp
  then have "?m div 16 < 16" by (simp add: less_mult_imp_div_less)
  then have "(?m div 16) mod 16 = ?m div 16" by (rule mod_less)
  then have "16 * ((?m div 16) mod 16) + ?m mod 16 = ?m" by simp
  then show ?thesis
    by (simp add: unicode_escape_def hex_val_digit hex_val_zero)
qed

lemma str_body_plain:
  assumes "c \<noteq> CHR 0x22" "c \<noteq> CHR 0x5C" "32 \<le> (of_char c :: nat)"
  shows "str_body (c # x) = add_char c (str_body x)"
  using assms by (cases x) (simp_all add: add_char_def)

lemma str_body_simple:
  assumes "simple_escape e = Some c"
  shows "str_body (CHR 0x5C # e # x) = add_char c (str_body x)"
proof -
  have "e \<noteq> CHR ''u''" using assms by (auto simp: simple_escape_def split: if_splits)
  then show ?thesis using assms by simp
qed

lemma str_body_unicode:
  assumes "unicode_escape a b h1 h2 = Some c"
  shows "str_body (CHR 0x5C # CHR ''u'' # a # b # h1 # h2 # x) = add_char c (str_body x)"
  using assms by simp

lemma str_body_escape: "str_body (json_escape_char c @ x) = add_char c (str_body x)"
proof -
  consider "c = CHR 0x22" | "c = CHR 0x5C" | "c = CHR 0x0A" | "c = CHR 0x0D" | "c = CHR 0x09"
    | "c = CHR 0x08" | "c = CHR 0x0C"
    | "c \<noteq> CHR 0x22" "c \<noteq> CHR 0x5C" "c \<noteq> CHR 0x0A" "c \<noteq> CHR 0x0D" "c \<noteq> CHR 0x09"
      "c \<noteq> CHR 0x08" "c \<noteq> CHR 0x0C" "32 \<le> (of_char c :: nat) \<and> (of_char c :: nat) \<le> 126"
    | "c \<noteq> CHR 0x22" "c \<noteq> CHR 0x5C" "c \<noteq> CHR 0x0A" "c \<noteq> CHR 0x0D" "c \<noteq> CHR 0x09"
      "c \<noteq> CHR 0x08" "c \<noteq> CHR 0x0C" "\<not> (32 \<le> (of_char c :: nat) \<and> (of_char c :: nat) \<le> 126)"
    by blast
  then show ?thesis
  proof cases
    case 1
    have "simple_escape (CHR 0x22) = Some c" by (simp add: simple_escape_def 1)
    then show ?thesis by (simp add: json_escape_char_def 1 str_body_simple del: str_body.simps)
  next
    case 2
    have "simple_escape (CHR 0x5C) = Some c" by (simp add: simple_escape_def 2)
    then show ?thesis by (simp add: json_escape_char_def 2 str_body_simple del: str_body.simps)
  next
    case 3
    have "simple_escape (CHR ''n'') = Some c" by (simp add: simple_escape_def 3)
    then show ?thesis by (simp add: json_escape_char_def 3 str_body_simple del: str_body.simps)
  next
    case 4
    have "simple_escape (CHR ''r'') = Some c" by (simp add: simple_escape_def 4)
    then show ?thesis by (simp add: json_escape_char_def 4 str_body_simple del: str_body.simps)
  next
    case 5
    have "simple_escape (CHR ''t'') = Some c" by (simp add: simple_escape_def 5)
    then show ?thesis by (simp add: json_escape_char_def 5 str_body_simple del: str_body.simps)
  next
    case 6
    have "simple_escape (CHR ''b'') = Some c" by (simp add: simple_escape_def 6)
    then show ?thesis by (simp add: json_escape_char_def 6 str_body_simple del: str_body.simps)
  next
    case 7
    have "simple_escape (CHR ''f'') = Some c" by (simp add: simple_escape_def 7)
    then show ?thesis by (simp add: json_escape_char_def 7 str_body_simple del: str_body.simps)
  next
    case 8
    then have "json_escape_char c = [c]" by (simp add: json_escape_char_def)
    then show ?thesis using 8 by (simp add: str_body_plain del: str_body.simps)
  next
    case 9
    then have "json_escape_char c = [CHR 0x5C, CHR ''u'', CHR ''0'', CHR ''0'',
            hex_digit (of_char c div 16), hex_digit (of_char c)]"
      by (simp add: json_escape_char_def)
    then show ?thesis
      by (simp add: str_body_unicode [OF unicode_escape_char] del: str_body.simps)
  qed
qed

lemma str_body_roundtrip:
  "str_body (concat (map json_escape_char s) @ CHR 0x22 # rest) = Some (s, rest)"
proof (induction s)
  case Nil
  then show ?case by (cases rest) simp_all
next
  case (Cons c s)
  have "str_body (json_escape_char c @ (concat (map json_escape_char s) @ CHR 0x22 # rest)) =
        add_char c (str_body (concat (map json_escape_char s) @ CHR 0x22 # rest))"
    by (rule str_body_escape)
  with Cons show ?case by (simp add: add_char_def del: str_body.simps)
qed

lemma parse_string_roundtrip: "parse_string (json_string s @ rest) = Some (s, rest)"
  using str_body_roundtrip [of s rest] by (simp add: parse_string_def json_string_def)

lemma dec_of_nat_lt10: "n < 10 \<Longrightarrow> dec_of_nat n = [hex_digit n]"
  by (subst dec_of_nat.simps) simp

lemma dec_of_nat_ge10:
  "10 \<le> n \<Longrightarrow> dec_of_nat n = dec_of_nat (n div 10) @ [hex_digit (n mod 10)]"
  by (subst dec_of_nat.simps) simp

lemma digit_table:
  "list_all (\<lambda>k. is_digit (hex_digit k) \<and> digit_val (hex_digit k) = k \<and>
                 (hex_digit k = CHR ''0'' \<longrightarrow> k = 0)) [0..<10]"
  by code_simp

lemma digit_of:
  assumes "k < 10"
  shows "is_digit (hex_digit k)" "digit_val (hex_digit k) = k" "hex_digit k = CHR ''0'' \<Longrightarrow> k = 0"
proof -
  from assms have "k \<in> set [0..<10]" by simp
  with digit_table have "is_digit (hex_digit k) \<and> digit_val (hex_digit k) = k \<and>
                 (hex_digit k = CHR ''0'' \<longrightarrow> k = 0)"
    unfolding list_all_iff by blast
  then show "is_digit (hex_digit k)" "digit_val (hex_digit k) = k"
    "hex_digit k = CHR ''0'' \<Longrightarrow> k = 0" by blast+
qed

lemma dec_value_snoc: "dec_value (ds @ [c]) = 10 * dec_value ds + digit_val c"
  by (simp add: dec_value_def)

lemma dec_of_nat_props:
  "dec_of_nat n \<noteq> [] \<and> list_all is_digit (dec_of_nat n) \<and> dec_value (dec_of_nat n) = n \<and>
   (hd (dec_of_nat n) = CHR ''0'' \<longrightarrow> n = 0)"
proof (induction n rule: dec_of_nat.induct)
  case (1 n)
  show ?case
  proof (cases "n < 10")
    case True
    then show ?thesis
      using digit_of [OF True] by (simp add: dec_of_nat_lt10 dec_value_def del: dec_of_nat.simps)
  next
    case False
    then have ge: "10 \<le> n" by simp
    have m: "n mod 10 < 10" by simp
    from 1 False have ih: "dec_of_nat (n div 10) \<noteq> []"
      "list_all is_digit (dec_of_nat (n div 10))"
      "dec_value (dec_of_nat (n div 10)) = n div 10"
      "hd (dec_of_nat (n div 10)) = CHR ''0'' \<longrightarrow> n div 10 = 0" by blast+
    have "n div 10 \<noteq> 0" using ge by simp
    with ih(4) have "hd (dec_of_nat (n div 10)) \<noteq> CHR ''0''" by blast
    then show ?thesis
      using ih(1-3) digit_of(1,2) [OF m]
      by (simp add: dec_of_nat_ge10 [OF ge] dec_value_snoc del: dec_of_nat.simps)
  qed
qed

lemma takeWhile_digits_then:
  assumes "list_all is_digit ds" "rest = [] \<or> \<not> is_digit (hd rest)"
  shows "takeWhile is_digit (ds @ rest) = ds" "dropWhile is_digit (ds @ rest) = rest"
proof -
  have "takeWhile is_digit rest = []" "dropWhile is_digit rest = rest"
    using assms(2) by (cases rest; simp)+
  then show "takeWhile is_digit (ds @ rest) = ds" "dropWhile is_digit (ds @ rest) = rest"
    using assms(1) by (simp_all add: takeWhile_all_append list_all_iff)
qed

lemma parse_nat_roundtrip:
  assumes "rest = [] \<or> \<not> is_digit (hd rest)"
  shows "parse_nat (dec_of_nat n @ rest) = Some (n, rest)"
proof -
  note p = dec_of_nat_props [of n]
  from p have ds: "list_all is_digit (dec_of_nat n)" by blast
  have z: "\<not> (hd (dec_of_nat n) = CHR ''0'' \<and> tl (dec_of_nat n) \<noteq> [])"
  proof
    assume a: "hd (dec_of_nat n) = CHR ''0'' \<and> tl (dec_of_nat n) \<noteq> []"
    with p have "n = 0" by blast
    then have "dec_of_nat n = [hex_digit 0]" by (simp add: dec_of_nat_lt10 del: dec_of_nat.simps)
    with a show False by simp
  qed
  show ?thesis
    unfolding parse_nat_def Let_def takeWhile_digits_then [OF ds assms]
    using p z by (simp del: dec_of_nat.simps)
qed

lemma dec_of_nat_not_minus: "hd (dec_of_nat n) \<noteq> CHR ''-''" "dec_of_nat n \<noteq> []"
proof -
  note p = dec_of_nat_props [of n]
  then show ne: "dec_of_nat n \<noteq> []" by blast
  then have "hd (dec_of_nat n) \<in> set (dec_of_nat n)" by simp
  with p have "is_digit (hd (dec_of_nat n))" unfolding list_all_iff by blast
  then show "hd (dec_of_nat n) \<noteq> CHR ''-''" by (auto simp: is_digit_def)
qed

lemma parse_int_roundtrip:
  assumes "rest = [] \<or> \<not> is_digit (hd rest)"
  shows "parse_int (dec_of_int i @ rest) = Some (i, rest)"
proof (cases "i < 0")
  case True
  then show ?thesis
    by (simp add: dec_of_int_def parse_int_def parse_nat_roundtrip [OF assms] del: dec_of_nat.simps)
next
  case False
  obtain c cs where c: "dec_of_nat (nat i) = c # cs"
    using dec_of_nat_not_minus(2) [of "nat i"] by (cases "dec_of_nat (nat i)") auto
  with dec_of_nat_not_minus(1) [of "nat i"] have "c \<noteq> CHR ''-''" by simp
  moreover have "parse_nat ((c # cs) @ rest) = Some (nat i, rest)"
    using parse_nat_roundtrip [OF assms, of "nat i"] c by simp
  ultimately show ?thesis using False
    by (simp add: dec_of_int_def parse_int_def c del: dec_of_nat.simps)
qed

lemma json_value_head:
  "json_value v \<noteq> [] \<and> \<not> json_ws (hd (json_value v)) \<and>
   (hd (json_value v) = CHR 0x22 \<longleftrightarrow> (\<exists>s. v = PStr s))"
proof (cases v)
  case (PInt i)
  note p = dec_of_nat_props
  have d: "is_digit (hd (dec_of_nat n))" for n
  proof -
    from p [of n] have "hd (dec_of_nat n) \<in> set (dec_of_nat n)" by simp
    with p [of n] show ?thesis unfolding list_all_iff by blast
  qed
  have nd: "is_digit c \<Longrightarrow> \<not> json_ws c \<and> c \<noteq> CHR 0x22" for c
    by (auto simp: is_digit_def json_ws_def)
  show ?thesis
    using nd [OF d [of "nat i"]] p [of "nat i"]
    by (simp add: PInt dec_of_int_def json_ws_def del: dec_of_nat.simps)
next
  case (PStr s)
  then show ?thesis by (simp add: json_string_def json_ws_def)
qed

lemma parse_value_roundtrip:
  assumes "rest = [] \<or> \<not> is_digit (hd rest)"
  shows "parse_value (json_value v @ rest) = Some (v, rest)"
proof (cases v)
  case (PInt i)
  from json_value_head [of v] obtain c cs where c: "json_value v = c # cs" "c \<noteq> CHR 0x22"
    by (cases "json_value v") (auto simp: PInt)
  have "parse_int ((c # cs) @ rest) = Some (i, rest)"
    using parse_int_roundtrip [OF assms, of i] c(1) by (simp add: PInt)
  then show ?thesis using c by (simp add: parse_value_def PInt)
next
  case (PStr s)
  have "json_value v @ rest = CHR 0x22 # concat (map json_escape_char s) @ CHR 0x22 # rest"
    by (simp add: PStr json_string_def)
  moreover have "parse_string (json_string s @ rest) = Some (s, rest)"
    by (rule parse_string_roundtrip)
  ultimately show ?thesis by (simp add: parse_value_def PStr json_string_def)
qed

lemma skip_ws_head: "\<not> json_ws c \<Longrightarrow> skip_ws (c # s) = c # s"
  by (simp add: skip_ws_def)

lemma skip_ws_space: "skip_ws (CHR '' '' # s) = skip_ws s"
  by (simp add: skip_ws_def json_ws_def)

lemma skip_ws_value: "skip_ws (json_value v @ s) = json_value v @ s"
proof -
  from json_value_head [of v] obtain c cs where "json_value v = c # cs" "\<not> json_ws c"
    by (cases "json_value v") auto
  then show ?thesis by (simp add: skip_ws_head)
qed

lemma skip_ws_string: "skip_ws (json_string k @ s) = json_string k @ s"
  by (simp add: json_string_def skip_ws_head json_ws_def)

lemma json_dumps_entry: "json_dumps d = ''{'' @ join '', '' (map json_member d) @ ''}''"
proof -
  have "(\<lambda>(k, v). json_string k @ '': '' @ json_value v) = json_member"
    by (rule ext) (simp add: json_member_def split: prod.splits)
  then show ?thesis by (simp add: json_dumps_def)
qed

lemma members_one:
  "members (Suc n) (json_member (k, v) @ ''}'') = Some [(k, v)]"
proof -
  have 1: "parse_string (json_string k @ '': '' @ json_value v @ ''}'') =
      Some (k, '': '' @ json_value v @ ''}'')"
    by (rule parse_string_roundtrip)
  have 2: "skip_ws ('': '' @ json_value v @ ''}'') = CHR '':'' # '' '' @ json_value v @ ''}''"
    by (simp add: skip_ws_head json_ws_def)
  have 3: "skip_ws ('' '' @ json_value v @ ''}'') = json_value v @ ''}''"
    using skip_ws_value [of v "''}''"] by (simp add: skip_ws_space)
  have 4: "parse_value (json_value v @ ''}'') = Some (v, ''}'')"
    by (rule parse_value_roundtrip) (simp add: is_digit_def)
  have 5: "skip_ws ''}'' = ''}''" "skip_ws [] = []"
    by (simp_all add: skip_ws_def json_ws_def)
  show ?thesis
    unfolding json_member_def fst_conv snd_conv append_assoc members.simps 1 option.case prod.case 2
      list.case 3 4 5
    by simp
qed

lemma members_more:
  "members (Suc n) (json_member (k, v) @ '', '' @ json_member p @ s) =
     map_option (\<lambda>ms. (k, v) # ms) (members n (json_member p @ s))"
proof -
  let ?t = "'', '' @ json_member p @ s"
  have 1: "parse_string (json_string k @ '': '' @ json_value v @ ?t) =
      Some (k, '': '' @ json_value v @ ?t)"
    by (rule parse_string_roundtrip)
  have 2: "skip_ws ('': '' @ json_value v @ ?t) = CHR '':'' # '' '' @ json_value v @ ?t"
    by (simp add: skip_ws_head json_ws_def)
  have 3: "skip_ws ('' '' @ json_value v @ ?t) = json_value v @ ?t"
    using skip_ws_value [of v ?t] by (simp add: skip_ws_space)
  have 4: "parse_value (json_value v @ ?t) = Some (v, ?t)"
    by (rule parse_value_roundtrip) (simp add: is_digit_def)
  have 5: "skip_ws ?t = CHR '','' # '' '' @ json_member p @ s"
    by (simp add: skip_ws_head json_ws_def)
  have 6: "skip_ws ('' '' @ json_member p @ s) = json_member p @ s"
    using skip_ws_string [of "fst p" "'': '' @ json_value (snd p) @ s"]
    by (simp add: skip_ws_space json_member_def)
  show ?thesis
    unfolding json_member_def [of "(k, v)"] fst_conv snd_conv append_assoc members.simps 1 option.case
      prod.case 2 list.case 3 4 5 6
    by simp
qed

lemma members_roundtrip:
  "length d \<le> n \<Longrightarrow> members (Suc n) (join '', '' (map json_member (p # d)) @ ''}'') = Some (p # d)"
proof (induction d arbitrary: p n)
  case Nil
  obtain k v where p: "p = (k, v)" by (cases p)
  show ?case using members_one [of n k v] by (simp add: p)
next
  case (Cons q d)
  obtain k v where p: "p = (k, v)" by (cases p)
  from Cons.prems obtain m where n: "n = Suc m" "length d \<le> m" by (cases n) auto
  have "members (Suc m) (join '', '' (map json_member (q # d)) @ ''}'') = Some (q # d)"
    using n(2) by (rule Cons.IH)
  moreover have "join '', '' (map json_member (q # d)) = json_member q @ tl_text" if "tl_text = drop (length (json_member q)) (join '', '' (map json_member (q # d)))" for tl_text
    using that by (cases d) simp_all
  then obtain t where t: "join '', '' (map json_member (q # d)) = json_member q @ t" by blast
  ultimately have "members (Suc m) (json_member q @ t @ ''}'') = Some (q # d)" by simp
  then have "members (Suc (Suc m)) (json_member (k, v) @ '', '' @ json_member q @ t @ ''}'') = Some (p # q # d)"
    unfolding members_more by (simp add: p)
  then show ?case using t by (simp add: p n(1))
qed

lemma length_join_entries: "length xs \<le> length (join '', '' (map json_member xs))"
proof (induction xs)
  case Nil
  then show ?case by simp
next
  case (Cons x xs)
  have "json_member x \<noteq> []" by (simp add: json_member_def json_string_def)
  then have "1 \<le> length (json_member x)" by (cases "json_member x") simp_all
  with Cons show ?case by (cases xs) simp_all
qed

lemma join_entries_head:
  "\<exists>t. join '', '' (map json_member (p # d)) @ ''}'' = CHR 0x22 # t"
proof -
  obtain e where e: "json_member p = CHR 0x22 # e" by (simp add: json_member_def json_string_def)
  show ?thesis by (cases d) (simp_all add: e)
qed

lemma json_loads_dumps: "json_loads (json_dumps d) = Some d"
proof (cases d)
  case Nil
  then show ?thesis
    by (simp add: json_dumps_def json_loads_def skip_ws_def json_ws_def)
next
  case (Cons p d')
  define body where "body = join '', '' (map json_member (p # d')) @ ''}''"
  from join_entries_head [of p d'] obtain t where b: "body = CHR 0x22 # t"
    unfolding body_def by blast
  have d: "json_dumps d = CHR ''{'' # body"
    by (simp add: json_dumps_entry Cons body_def del: join.simps)
  have s0: "skip_ws (CHR ''{'' # body) = CHR ''{'' # body"
    by (simp add: skip_ws_head json_ws_def)
  have s1: "skip_ws body = body"
    unfolding b by (simp add: skip_ws_head json_ws_def)
  have "length (p # d') \<le> length (join '', '' (map json_member (p # d')))"
    by (rule length_join_entries)
  then have "length d' \<le> length body" by (simp add: body_def del: join.simps)
  then have mm: "members (Suc (length body)) body = Some (p # d')"
    unfolding body_def by (rule members_roundtrip)
  have "json_loads (CHR ''{'' # body) = members (length (CHR ''{'' # body)) body"
    unfolding json_loads_def s0 list.case s1 by (simp add: b)
  then show ?thesis unfolding d using mm by (simp add: Cons)
qed

section \<open>The loops of the handler\<close>

lemma resolve_first_match:
  "\<forall>p\<in>set pre. re_match (pattern p) q = None \<Longrightarrow> re_match (pattern r) q = Some vals \<Longrightarrow>
   resolve (pre @ r # post) lim q = apply_rule lim r vals"
  by (induction pre) simp_all

lemma resolve_no_match:
  "\<forall>p\<in>set rules. re_match (pattern p) q = None \<Longrightarrow>
   resolve rules lim q = HTTPException 404 no_match_detail"
  by (induction rules) simp_all

lemma resolve_cases:
  "resolve rules lim q = HTTPException 404 no_match_detail \<and>
     (\<forall>p\<in>set rules. re_match (pattern p) q = None) \<or>
   (\<exists>pre r post vals. rules = pre @ r # post \<and> (\<forall>p\<in>set pre. re_match (pattern p) q = None) \<and>
      re_match (pattern r) q = Some vals \<and> resolve rules lim q = apply_rule lim r vals)"
proof (induction rules)
  case Nil
  then show ?case by simp
next
  case (Cons a rules)
  show ?case
  proof (cases "re_match (pattern a) q")
    case None
    from Cons.IH show ?thesis
    proof
      assume "resolve rules lim q = HTTPException 404 no_match_detail \<and>
        (\<forall>p\<in>set rules. re_match (pattern p) q = None)"
      with None show ?thesis by simp
    next
      assume "\<exists>pre r post vals. rules = pre @ r # post \<and>
        (\<forall>p\<in>set pre. re_match (pattern p) q = None) \<and>
        re_match (pattern r) q = Some vals \<and> resolve rules lim q = apply_rule lim r vals"
      then obtain pre r post vals where *: "rules = pre @ r # post"
        "\<forall>p\<in>set pre. re_match (pattern p) q = None"
        "re_match (pattern r) q = Some vals" "resolve rules lim q = apply_rule lim r vals"
        by blast
      have "a # rules = (a # pre) @ r # post" using *(1) by simp
      moreover have "\<forall>p\<in>set (a # pre). re_match (pattern p) q = None" using *(2) None by simp
      moreover have "resolve (a # rules) lim q = apply_rule lim r vals" using *(4) None by simp
      ultimately show ?thesis using *(3) by blast
    qed
  next
    case (Some vals)
    have "a # rules = [] @ a # rules" by simp
    moreover have "resolve (a # rules) lim q = apply_rule lim a vals" using Some by simp
    ultimately show ?thesis using Some by (metis empty_iff empty_set)
  qed
qed

lemma py_int_error: "py_int lim s = Inl e \<Longrightarrow> e = ValueError"
  by (auto simp: py_int_def Let_def split: if_splits)

lemma coerce_TypeError:
  "coerce lim ty v = Inl TypeError \<longleftrightarrow> ty = TInt \<and> v = None"
  by (cases ty; cases v) (auto dest: py_int_error)

lemma build_not_TypeError:
  assumes "\<forall>(i, nm)\<in>set xs. i < length tys \<and> i < length vals \<and> tys ! i = TInt \<longrightarrow> vals ! i \<noteq> None"
  shows "build_arguments lim tys vals xs d \<noteq> Inl TypeError"
  using assms
proof (induction xs arbitrary: d)
  case Nil
  then show ?case by simp
next
  case (Cons x xs)
  obtain i nm where x: "x = (i, nm)" by (cases x)
  from Cons.prems have rest: "\<forall>(i, nm)\<in>set xs. i < length tys \<and> i < length vals \<and> tys ! i = TInt \<longrightarrow> vals ! i \<noteq> None"
    by simp
  from Cons.prems x have here: "i < length tys \<and> i < length vals \<and> tys ! i = TInt \<longrightarrow> vals ! i \<noteq> None"
    by simp
  show ?case
    using Cons.IH [OF rest] here
    by (auto simp: x list_get_def coerce_TypeError split: sum.splits)
qed

lemma build_fails:
  assumes "\<exists>(i, nm)\<in>set xs. \<not> i < length tys \<or> \<not> i < length vals \<or> isl (coerce lim (tys ! i) (vals ! i))"
  shows "isl (build_arguments lim tys vals xs d)"
  using assms
proof (induction xs arbitrary: d)
  case Nil
  then show ?case by simp
next
  case (Cons x xs)
  obtain i nm where x: "x = (i, nm)" by (cases x)
  show ?case
  proof (cases "\<not> i < length tys \<or> \<not> i < length vals \<or> isl (coerce lim (tys ! i) (vals ! i))")
    case True
    then show ?thesis by (auto simp: x list_get_def split: sum.splits)
  next
    case False
    with Cons.prems x have "\<exists>(i, nm)\<in>set xs. \<not> i < length tys \<or> \<not> i < length vals \<or> isl (coerce lim (tys ! i) (vals ! i))"
      by auto
    then have "isl (build_arguments lim tys vals xs d')" for d' by (rule Cons.IH)
    then show ?thesis by (auto simp: x list_get_def split: sum.splits)
  qed
qed

lemma apply_rule_400:
  assumes "isl (build_arguments lim (arg_types r) vals (enumerate 0 (arg_names r)) [])"
    and "build_arguments lim (arg_types r) vals (enumerate 0 (arg_names r)) [] \<noteq> Inl TypeError"
  shows "apply_rule lim r vals = HTTPException 400 mismatch_detail"
  using assms by (auto simp: apply_rule_def split: sum.splits exn.splits)

lemma dict_set_keys:
  "map fst (dict_set k v d) = (if k \<in> set (map fst d) then map fst d else map fst d @ [k])"
  by (induction d) auto

lemma build_keys_first:
  assumes "build_arguments lim tys vals xs d = Inr args"
  shows "map fst args =
         map fst d @ filter (\<lambda>k. k \<notin> set (map fst d)) (first_occurrences (map snd xs))"
  using assms
proof (induction xs arbitrary: d)
  case Nil
  then show ?case by simp
next
  case (Cons x xs)
  obtain i nm where x: "x = (i, nm)" by (cases x)
  from Cons.prems obtain v where
    step: "build_arguments lim tys vals xs (dict_set nm v d) = Inr args"
    by (auto simp: x split: sum.splits)
  let ?ks = "map fst d"
  let ?f = "first_occurrences (map snd xs)"
  have ih: "map fst args = map fst (dict_set nm v d) @
      filter (\<lambda>k. k \<notin> set (map fst (dict_set nm v d))) ?f"
    using step by (rule Cons.IH)
  show ?case
  proof (cases "nm \<in> set ?ks")
    case True
    then have keys: "map fst (dict_set nm v d) = ?ks" by (simp add: dict_set_keys)
    have "filter (\<lambda>k. k \<notin> set ?ks) (filter (\<lambda>y. y \<noteq> nm) ?f) = filter (\<lambda>k. k \<notin> set ?ks) ?f"
      using True by (auto intro: filter_cong)
    then show ?thesis using True unfolding ih keys by (simp add: x)
  next
    case False
    then have keys: "map fst (dict_set nm v d) = ?ks @ [nm]" by (simp add: dict_set_keys)
    have "filter (\<lambda>k. k \<notin> set (?ks @ [nm])) ?f =
          filter (\<lambda>k. k \<notin> set ?ks) (filter (\<lambda>y. y \<noteq> nm) ?f)"
      by (auto intro: filter_cong)
    then show ?thesis using False unfolding ih keys by (simp add: x)
  qed
qed

lemma first_occurrences_distinct: "distinct xs \<Longrightarrow> first_occurrences xs = xs"
proof (induction xs)
  case Nil
  then show ?case by simp
next
  case (Cons x xs)
  then have "filter (\<lambda>y. y \<noteq> x) xs = xs" by (auto intro: filter_True)
  with Cons show ?case by simp
qed

lemma map_snd_enumerate: "map snd (enumerate n xs) = xs"
  by (induction xs arbitrary: n) simp_all

lemma apply_rule_Return:
  assumes "apply_rule lim r vals = Return resp"
  shows "\<exists>args. build_arguments lim (arg_types r) vals (enumerate 0 (arg_names r)) [] = Inr args \<and>
          name resp = func_name r \<and> arguments resp = json_dumps args"
  using assms by (auto simp: apply_rule_def split: sum.splits exn.splits)

lemma no_lead_no_match:
  "\<not> prefix lead_ticket q \<Longrightarrow> re_match (pattern rule_ticket) q = None"
  "\<not> prefix lead_meeting q \<Longrightarrow> re_match (pattern rule_meeting) q = None"
  "\<not> prefix lead_expense q \<Longrightarrow> re_match (pattern rule_expense) q = None"
  "\<not> prefix lead_bonus q \<Longrightarrow> re_match (pattern rule_bonus) q = None"
  "\<not> prefix lead_issue q \<Longrightarrow> re_match (pattern rule_issue) q = None"
  by (simp_all add: re_match_None ms_ticket ms_meeting ms_expense ms_bonus ms_issue)

lemma prefix_take: "prefix l q \<Longrightarrow> n \<le> length l \<Longrightarrow> take n q = take n l"
  by (auto simp: prefix_def)

lemma lead_take2:
  "take 2 lead_ticket = ''Wh''" "take 2 lead_meeting = ''Sc''" "take 2 lead_expense = ''Sh''"
  "take 2 lead_bonus = ''Ca''" "take 2 lead_issue = ''Re''"
  by (simp_all add: lead_ticket_def lead_meeting_def lead_expense_def lead_bonus_def lead_issue_def)

lemma lead_length:
  "2 \<le> length lead_ticket" "2 \<le> length lead_meeting" "2 \<le> length lead_expense"
  "2 \<le> length lead_bonus" "2 \<le> length lead_issue"
  by (simp_all add: lead_ticket_def lead_meeting_def lead_expense_def lead_bonus_def lead_issue_def)

lemma lead_prefix_take2:
  "prefix lead_ticket q \<Longrightarrow> take 2 q = ''Wh''"
  "prefix lead_meeting q \<Longrightarrow> take 2 q = ''Sc''"
  "prefix lead_expense q \<Longrightarrow> take 2 q = ''Sh''"
  "prefix lead_bonus q \<Longrightarrow> take 2 q = ''Ca''"
  "prefix lead_issue q \<Longrightarrow> take 2 q = ''Re''"
  using prefix_take [of _ q 2] lead_length lead_take2 by metis+

lemma lead_exclusive:
  "prefix lead_ticket q \<Longrightarrow> \<not> prefix lead_meeting q \<and> \<not> prefix lead_expense q \<and>
     \<not> prefix lead_bonus q \<and> \<not> prefix lead_issue q"
  "prefix lead_meeting q \<Longrightarrow> \<not> prefix lead_ticket q \<and> \<not> prefix lead_expense q \<and>
     \<not> prefix lead_bonus q \<and> \<not> prefix lead_issue q"
  "prefix lead_expense q \<Longrightarrow> \<not> prefix lead_ticket q \<and> \<not> prefix lead_meeting q \<and>
     \<not> prefix lead_bonus q \<and> \<not> prefix lead_issue q"
  "prefix lead_bonus q \<Longrightarrow> \<not> prefix lead_ticket q \<and> \<not> prefix lead_meeting q \<and>
     \<not> prefix lead_expense q \<and> \<not> prefix lead_issue q"
  "prefix lead_issue q \<Longrightarrow> \<not> prefix lead_ticket q \<and> \<not> prefix lead_meeting q \<and>
     \<not> prefix lead_expense q \<and> \<not> prefix lead_bonus q"
  using lead_prefix_take2 [of q] by auto

lemma resolve_default:
  "resolve FUNCTION_RULES lim q =
     (if prefix lead_ticket q then
        (case re_match (pattern rule_ticket) q of
           None \<Rightarrow> HTTPException 404 no_match_detail | Some v \<Rightarrow> apply_rule lim rule_ticket v)
      else if prefix lead_meeting q then
        (case re_match (pattern rule_meeting) q of
           None \<Rightarrow> HTTPException 404 no_match_detail | Some v \<Rightarrow> apply_rule lim rule_meeting v)
      else if prefix lead_expense q then
        (case re_match (pattern rule_expense) q of
           None \<Rightarrow> HTTPException 404 no_match_detail | Some v \<Rightarrow> apply_rule lim rule_expense v)
      else if prefix lead_bonus q then
        (case re_match (pattern rule_bonus) q of
           None \<Rightarrow> HTTPException 404 no_match_detail | Some v \<Rightarrow> apply_rule lim rule_bonus v)
      else if prefix lead_issue q then
        (case re_match (pattern rule_issue) q of
           None \<Rightarrow> HTTPException 404 no_match_detail | Some v \<Rightarrow> apply_rule lim rule_issue v)
      else HTTPException 404 no_match_detail)"
proof -
  consider "prefix lead_ticket q" | "prefix lead_meeting q" | "prefix lead_expense q"
    | "prefix lead_bonus q" | "prefix lead_issue q"
    | "\<not> prefix lead_ticket q" "\<not> prefix lead_meeting q" "\<not> prefix lead_expense q"
      "\<not> prefix lead_bonus q" "\<not> prefix lead_issue q"
    by blast
  then show ?thesis
  proof cases
    case 1
    with lead_exclusive(1) [OF 1] show ?thesis
      by (simp add: FUNCTION_RULES_def no_lead_no_match split: option.splits)
  next
    case 2
    with lead_exclusive(2) [OF 2] show ?thesis
      by (simp add: FUNCTION_RULES_def no_lead_no_match split: option.splits)
  next
    case 3
    with lead_exclusive(3) [OF 3] show ?thesis
      by (simp add: FUNCTION_RULES_def no_lead_no_match split: option.splits)
  next
    case 4
    with lead_exclusive(4) [OF 4] show ?thesis
      by (simp add: FUNCTION_RULES_def no_lead_no_match split: option.splits)
  next
    case 5
    with lead_exclusive(5) [OF 5] show ?thesis
      by (simp add: FUNCTION_RULES_def no_lead_no_match split: option.splits)
  next
    case 6
    then show ?thesis by (simp add: FUNCTION_RULES_def no_lead_no_match)
  qed
qed

section \<open>Queries of the expected shapes\<close>

lemma ticket_match:
  "d \<noteq> [] \<Longrightarrow> list_all is_digit d \<Longrightarrow>
   re_match (pattern rule_ticket) (lead_ticket @ d @ ''?'' @ rest) = Some [Some d]"
  by (simp add: re_match_def ms_ticket takeWhile_stop dropWhile_stop Let_def)

lemma expense_match:
  "d \<noteq> [] \<Longrightarrow> list_all is_digit d \<Longrightarrow>
   re_match (pattern rule_expense) (lead_expense @ d @ ''.'' @ rest) = Some [Some d]"
  by (simp add: re_match_def ms_expense takeWhile_stop dropWhile_stop Let_def)

lemma bonus_match:
  "d \<noteq> [] \<Longrightarrow> list_all is_digit d \<Longrightarrow> length y = 4 \<Longrightarrow> list_all is_digit y \<Longrightarrow>
   re_match (pattern rule_bonus) (lead_bonus @ d @ '' for '' @ y @ ''.'' @ rest) =
     Some [Some d, Some y]"
  by (simp add: re_match_def ms_bonus takeWhile_stop dropWhile_stop Let_def)

lemma meeting_match:
  assumes "d \<noteq> []" "list_all is_date_char d" "t \<noteq> []" "list_all is_time_char t"
    and "newline \<notin> set (room @ tail)" "CHR ''.'' \<notin> set tail"
    and "rest = [] \<or> hd rest = newline"
  shows "re_match (pattern rule_meeting)
           (lead_meeting @ d @ '' at '' @ t @ '' in '' @ room @ ''.'' @ tail @ rest) =
         Some [Some d, Some t, Some room]"
proof -
  have nl: "newline \<notin> set (room @ ''.'' @ tail)" using assms(5) by (simp add: newline_def)
  have "\<not> prefix ''.'' (drop j (''.'' @ tail))" if "0 < j" for j
  proof
    assume "prefix ''.'' (drop j (''.'' @ tail))"
    then have "CHR ''.'' \<in> set (drop j (''.'' @ tail))" by (auto simp: prefix_def)
    moreover have "drop j (''.'' @ tail) = drop (j - 1) tail" using that by (cases j) simp_all
    ultimately have "CHR ''.'' \<in> set tail" by (metis in_set_dropD)
    with assms(6) show False by simp
  qed
  then have "\<forall>j. 0 < j \<longrightarrow> \<not> prefix ''.'' (drop j (''.'' @ tail))" by blast
  from ms_greedy_first [OF nl assms(7) this] obtain more where
    "ms (Seq (Group (Rep Any 0 None)) (Lit ''.'')) (room @ ''.'' @ tail @ rest) =
       ([Some room], tail @ rest) # more" by blast
  then show ?thesis
    using assms(1-4)
    by (simp add: re_match_def ms_meeting takeWhile_stop dropWhile_stop Let_def del: ms.simps)
qed

lemma issue_match:
  assumes "d \<noteq> []" "list_all is_digit d"
    and "newline \<notin> set (dept @ tail)"
    and "\<forall>j. 0 < j \<longrightarrow> \<not> prefix '' department.'' (drop j ('' department.'' @ tail))"
    and "rest = [] \<or> hd rest = newline"
  shows "re_match (pattern rule_issue)
           (lead_issue @ d @ '' for the '' @ dept @ '' department.'' @ tail @ rest) =
         Some [Some d, Some dept]"
proof -
  have nl: "newline \<notin> set (dept @ '' department.'' @ tail)"
    using assms(3) by (simp add: newline_def)
  from ms_greedy_first [OF nl assms(5,4)] obtain more where
    "ms (Seq (Group (Rep Any 0 None)) (Lit '' department.''))
        (dept @ '' department.'' @ tail @ rest) = ([Some dept], tail @ rest) # more" by blast
  then show ?thesis
    using assms(1-2)
    by (simp add: re_match_def ms_issue takeWhile_stop dropWhile_stop Let_def del: ms.simps)
qed

section \<open>The outcome of each rule of the table\<close>

lemma if_shape:
  "(if a then Inl ValueError else if b then Inl ValueError else Inr (PInt x)) = Inl ValueError \<or>
   (\<exists>i. (if a then Inl ValueError else if b then Inl ValueError else Inr (PInt x)) = Inr (PInt i))"
  by simp

lemma py_int_result: "py_int lim s = Inl ValueError \<or> (\<exists>i. py_int lim s = Inr (PInt i))"
  unfolding py_int_def Let_def by (rule if_shape)

lemma py_int_cases:
  obtains "py_int lim s = Inl ValueError" | i where "py_int lim s = Inr (PInt i)"
  using py_int_result [of lim s] by blast

lemma apply_ticket:
  "apply_rule lim rule_ticket [Some d] =
     (case py_int lim d of
        Inl e \<Rightarrow> HTTPException 400 mismatch_detail
      | Inr v \<Rightarrow> Return \<lparr>name = ''get_ticket_status'',
                          arguments = json_dumps [(''ticket_id'', v)]\<rparr>)"
  by (cases lim d rule: py_int_cases)
     (simp_all add: apply_rule_def rule_ticket_def list_get_def)

lemma apply_expense:
  "apply_rule lim rule_expense [Some d] =
     (case py_int lim d of
        Inl e \<Rightarrow> HTTPException 400 mismatch_detail
      | Inr v \<Rightarrow> Return \<lparr>name = ''get_expense_balance'',
                          arguments = json_dumps [(''employee_id'', v)]\<rparr>)"
  by (cases lim d rule: py_int_cases)
     (simp_all add: apply_rule_def rule_expense_def list_get_def)

lemma apply_bonus:
  "apply_rule lim rule_bonus [Some d, Some y] =
     (case py_int lim d of
        Inl e \<Rightarrow> HTTPException 400 mismatch_detail
      | Inr v \<Rightarrow>
         (case py_int lim y of
            Inl e \<Rightarrow> HTTPException 400 mismatch_detail
          | Inr w \<Rightarrow> Return \<lparr>name = ''calculate_performance_bonus'',
                arguments = json_dumps [(''employee_id'', v), (''current_year'', w)]\<rparr>))"
  by (cases lim d rule: py_int_cases; cases lim y rule: py_int_cases)
     (simp_all add: apply_rule_def rule_bonus_def list_get_def)

lemma apply_issue:
  "apply_rule lim rule_issue [Some d, Some x] =
     (case py_int lim d of
        Inl e \<Rightarrow> HTTPException 400 mismatch_detail
      | Inr v \<Rightarrow> Return \<lparr>name = ''report_office_issue'',
                arguments = json_dumps [(''issue_code'', v), (''department'', PStr x)]\<rparr>)"
  by (cases lim d rule: py_int_cases)
     (simp_all add: apply_rule_def rule_issue_def list_get_def)

lemma apply_meeting:
  "apply_rule lim rule_meeting [Some d, Some t, Some x] =
     Return \<lparr>name = ''schedule_meeting'',
            arguments = json_dumps [(''date'', PStr d), (''time'', PStr t),
                                    (''meeting_room'', PStr x)]\<rparr>"
  by (simp add: apply_rule_def rule_meeting_def list_get_def)

lemma ticket_query_match:
  "re_match (pattern rule_ticket) ''What is the status of ticket 83742?'' = Some [Some ''83742'']"
proof -
  have q: "''What is the status of ticket 83742?'' = lead_ticket @ ''83742'' @ ''?'' @ []"
    by (simp add: lead_ticket_def)
  show ?thesis unfolding q by (rule ticket_match) (simp_all add: is_digit_def)
qed

lemma py_int_83742: "py_int lim ''83742'' = Inr (PInt 83742)"
  by (simp add: py_int_digits is_digit_def dec_value_def digit_val_def)

lemma json_ticket: \<open>json_dumps [(''ticket_id'', PInt 83742)] = ''{"ticket_id": 83742}''\<close>
  by (simp add: json_dumps_def json_string_def json_escape_char_def dec_of_int_def
      dec_of_nat_lt10 dec_of_nat_ge10 hex_digit_def del: dec_of_nat.simps)

lemma ticket_outcome:
  \<open>resolve FUNCTION_RULES lim ''What is the status of ticket 83742?'' =
     Return \<lparr>name = ''get_ticket_status'', arguments = ''{"ticket_id": 83742}''\<rparr>\<close>
proof -
  have "prefix lead_ticket ''What is the status of ticket 83742?''"
    by (simp add: lead_ticket_def)
  then show ?thesis
    by (simp only: resolve_default if_True ticket_query_match option.case apply_ticket
        py_int_83742 sum.case json_ticket)
qed

lemma meeting_query_match:
  "re_match (pattern rule_meeting) ''Schedule a meeting on 2025-02-15 at 14:00 in Room A.'' =
     Some [Some ''2025-02-15'', Some ''14:00'', Some ''Room A'']"
proof -
  have q: "''Schedule a meeting on 2025-02-15 at 14:00 in Room A.'' =
      lead_meeting @ ''2025-02-15'' @ '' at '' @ ''14:00'' @ '' in '' @ ''Room A'' @ ''.'' @ [] @ []"
    by (simp add: lead_meeting_def)
  show ?thesis unfolding q
    by (rule meeting_match) (simp_all add: is_digit_def is_date_char_def is_time_char_def newline_def)
qed

lemma json_meeting:
  \<open>json_dumps [(''date'', PStr ''2025-02-15''), (''time'', PStr ''14:00''),
               (''meeting_room'', PStr ''Room A'')] =
   ''{"date": "2025-02-15", "time": "14:00", "meeting_room": "Room A"}''\<close>
  by (simp add: json_dumps_def json_string_def json_escape_char_def)

lemma meeting_outcome:
  \<open>resolve FUNCTION_RULES lim ''Schedule a meeting on 2025-02-15 at 14:00 in Room A.'' =
     Return \<lparr>name = ''schedule_meeting'',
       arguments = ''{"date": "2025-02-15", "time": "14:00", "meeting_room": "Room A"}''\<rparr>\<close>
proof -
  have "prefix lead_meeting ''Schedule a meeting on 2025-02-15 at 14:00 in Room A.''"
    by (simp add: lead_meeting_def)
  moreover have "\<not> prefix lead_ticket ''Schedule a meeting on 2025-02-15 at 14:00 in Room A.''"
    by (simp add: lead_ticket_def)
  ultimately show ?thesis
    by (simp only: resolve_default if_True if_False meeting_query_match option.case
        apply_meeting json_meeting)
qed










section \<open>The greedy captures of the table\<close>

lemma no_later_occurrence:
  assumes c: "c \<notin> set l" and sub: "\<not> sublist (c # l) tail"
  shows "\<forall>j. 0 < j \<longrightarrow> \<not> prefix (c # l) (drop j ((c # l) @ tail))"
proof (intro allI impI notI)
  fix j :: nat
  assume j: "0 < j" and p: "prefix (c # l) (drop j ((c # l) @ tail))"
  from j obtain i where i: "j = Suc i" by (cases j) auto
  show False
  proof (cases "i < length l")
    case True
    then have "drop i l \<noteq> []" by simp
    then obtain x xs where x: "drop i l = x # xs" by (cases "drop i l") auto
    then have "x \<in> set l" by (metis in_set_dropD list.set_intros(1))
    with c have "x \<noteq> c" by auto
    moreover have "drop j ((c # l) @ tail) = x # xs @ tail" using True x i by simp
    ultimately show False using p by simp
  next
    case False
    then have "drop j ((c # l) @ tail) = drop (i - length l) tail" using i by simp
    with p obtain ss where "drop (i - length l) tail = (c # l) @ ss" by (auto simp: prefix_def)
    then have "tail = take (i - length l) tail @ (c # l) @ ss"
      by (metis append_take_drop_id)
    then have "sublist (c # l) tail" unfolding sublist_def by blast
    with sub show False by simp
  qed
qed

lemma no_later_department:
  assumes "\<not> sublist '' department.'' tail"
  shows "\<forall>j. 0 < j \<longrightarrow> \<not> prefix '' department.'' (drop j ('' department.'' @ tail))"
  by (rule no_later_occurrence [OF _ assms]) simp

lemma issue_match_line:
  assumes "d \<noteq> []" "list_all is_digit d"
    and "newline \<notin> set (dept @ tail)"
    and "\<not> sublist '' department.'' tail"
    and "rest = [] \<or> hd rest = newline"
  shows "re_match (pattern rule_issue)
           (lead_issue @ d @ '' for the '' @ dept @ '' department.'' @ tail @ rest) =
         Some [Some d, Some dept]"
  using assms(1-3) no_later_department [OF assms(4)] assms(5) by (rule issue_match)

lemma resolve_meeting:
  assumes "d \<noteq> []" "list_all is_date_char d" "t \<noteq> []" "list_all is_time_char t"
    and "newline \<notin> set (room @ tail)" "CHR ''.'' \<notin> set tail"
    and "rest = [] \<or> hd rest = newline"
  shows "resolve FUNCTION_RULES lim
           (lead_meeting @ d @ '' at '' @ t @ '' in '' @ room @ ''.'' @ tail @ rest) =
         Return \<lparr>name = ''schedule_meeting'',
            arguments = json_dumps [(''date'', PStr d), (''time'', PStr t),
                                    (''meeting_room'', PStr room)]\<rparr>"
proof -
  let ?q = "lead_meeting @ d @ '' at '' @ t @ '' in '' @ room @ ''.'' @ tail @ rest"
  have p: "prefix lead_meeting ?q" by simp
  have m: "re_match (pattern rule_meeting) ?q = Some [Some d, Some t, Some room]"
    using assms by (rule meeting_match)
  show ?thesis
    using lead_exclusive(2) [OF p] p
    by (simp only: resolve_default if_True if_False m option.case apply_meeting)
qed

lemma resolve_issue:
  assumes "d \<noteq> []" "list_all is_digit d"
    and "newline \<notin> set (dept @ tail)"
    and "\<not> sublist '' department.'' tail"
    and "rest = [] \<or> hd rest = newline"
  shows "resolve FUNCTION_RULES lim
           (lead_issue @ d @ '' for the '' @ dept @ '' department.'' @ tail @ rest) =
         (if 640 < length d \<and> 0 < lim \<and> lim < length d
          then HTTPException 400 mismatch_detail
          else Return \<lparr>name = ''report_office_issue'',
                 arguments = json_dumps [(''issue_code'', PInt (int (dec_value d))),
                                         (''department'', PStr dept)]\<rparr>)"
proof -
  let ?q = "lead_issue @ d @ '' for the '' @ dept @ '' department.'' @ tail @ rest"
  have p: "prefix lead_issue ?q" by simp
  have m: "re_match (pattern rule_issue) ?q = Some [Some d, Some dept]"
    using assms by (rule issue_match_line)
  have r: "resolve FUNCTION_RULES lim ?q = apply_rule lim rule_issue [Some d, Some dept]"
    using lead_exclusive(5) [OF p] p
    by (simp only: resolve_default if_True if_False m option.case)
  show ?thesis
    unfolding r apply_issue py_int_digits [OF assms(1,2)] by simp
qed

lemma meeting_thanks_outcome:
  \<open>resolve FUNCTION_RULES lim ''Schedule a meeting on 2025-02-15 at 14:00 in Room A. Thanks.'' =
     Return \<lparr>name = ''schedule_meeting'',
       arguments = ''{"date": "2025-02-15", "time": "14:00", "meeting_room": "Room A. Thanks"}''\<rparr>\<close>
proof -
  have q: "''Schedule a meeting on 2025-02-15 at 14:00 in Room A. Thanks.'' =
      lead_meeting @ ''2025-02-15'' @ '' at '' @ ''14:00'' @ '' in '' @ ''Room A. Thanks'' @ ''.'' @ [] @ []"
    by (simp add: lead_meeting_def)
  have j: \<open>json_dumps [(''date'', PStr ''2025-02-15''), (''time'', PStr ''14:00''),
               (''meeting_room'', PStr ''Room A. Thanks'')] =
     ''{"date": "2025-02-15", "time": "14:00", "meeting_room": "Room A. Thanks"}''\<close>
    by (simp add: json_dumps_def json_string_def json_escape_char_def)
  have "resolve FUNCTION_RULES lim
      (lead_meeting @ ''2025-02-15'' @ '' at '' @ ''14:00'' @ '' in '' @ ''Room A. Thanks'' @ ''.'' @ [] @ []) =
     Return \<lparr>name = ''schedule_meeting'',
            arguments = json_dumps [(''date'', PStr ''2025-02-15''), (''time'', PStr ''14:00''),
                                    (''meeting_room'', PStr ''Room A. Thanks'')]\<rparr>"
    by (rule resolve_meeting)
       (simp_all add: is_digit_def is_date_char_def is_time_char_def newline_def)
  then show ?thesis unfolding q j .
qed

lemma json_room_a:
  \<open>json_dumps [(''date'', PStr ''2025-02-15''), (''time'', PStr ''14:00''),
               (''meeting_room'', PStr ''Room A'')] =
     ''{"date": "2025-02-15", "time": "14:00", "meeting_room": "Room A"}''\<close>
  by (simp add: json_dumps_def json_string_def json_escape_char_def)

lemma json_facilities:
  \<open>json_dumps [(''issue_code'', PInt (int (dec_value ''45321''))),
               (''department'', PStr ''Facilities'')] =
     ''{"issue_code": 45321, "department": "Facilities"}''\<close>
proof -
  have v: "int (dec_value ''45321'') = 45321"
    by (simp add: dec_value_def digit_val_def)
  show ?thesis
    unfolding v
    by (simp add: json_dumps_def json_string_def json_escape_char_def dec_of_int_def
      dec_of_nat_lt10 dec_of_nat_ge10 hex_digit_def)
qed

lemma meeting_two_lines_outcome:
  \<open>resolve FUNCTION_RULES lim
     (''Schedule a meeting on 2025-02-15 at 14:00 in Room A.'' @ [CHR 0x0A] @ ''Thanks.'') =
     Return \<lparr>name = ''schedule_meeting'',
       arguments = ''{"date": "2025-02-15", "time": "14:00", "meeting_room": "Room A"}''\<rparr>\<close>
proof -
  have q: "''Schedule a meeting on 2025-02-15 at 14:00 in Room A.'' @ [CHR 0x0A] @ ''Thanks.'' =
      lead_meeting @ ''2025-02-15'' @ '' at '' @ ''14:00'' @ '' in '' @ ''Room A'' @ ''.'' @ [] @
        (CHR 0x0A # ''Thanks.'')"
    by (simp add: lead_meeting_def)
  have "resolve FUNCTION_RULES lim
      (lead_meeting @ ''2025-02-15'' @ '' at '' @ ''14:00'' @ '' in '' @ ''Room A'' @ ''.'' @ [] @
        (CHR 0x0A # ''Thanks.'')) =
     Return \<lparr>name = ''schedule_meeting'',
            arguments = json_dumps [(''date'', PStr ''2025-02-15''), (''time'', PStr ''14:00''),
                                    (''meeting_room'', PStr ''Room A'')]\<rparr>"
    by (rule resolve_meeting)
       (simp_all add: is_digit_def is_date_char_def is_time_char_def newline_def)
  then show ?thesis unfolding q json_room_a .
qed

lemma issue_two_lines_outcome:
  \<open>resolve FUNCTION_RULES default_max_str_digits
     (''Report office issue 45321 for the Facilities department.'' @ [CHR 0x0A] @
      ''Also the HR department.'') =
     Return \<lparr>name = ''report_office_issue'',
       arguments = ''{"issue_code": 45321, "department": "Facilities"}''\<rparr>\<close>
proof -
  have q: "''Report office issue 45321 for the Facilities department.'' @ [CHR 0x0A] @
      ''Also the HR department.'' =
      lead_issue @ ''45321'' @ '' for the '' @ ''Facilities'' @ '' department.'' @ [] @
        (CHR 0x0A # ''Also the HR department.'')"
    by (simp add: lead_issue_def)
  have "resolve FUNCTION_RULES default_max_str_digits
      (lead_issue @ ''45321'' @ '' for the '' @ ''Facilities'' @ '' department.'' @ [] @
        (CHR 0x0A # ''Also the HR department.'')) =
     (if 640 < length ''45321'' \<and> 0 < default_max_str_digits \<and>
         default_max_str_digits < length ''45321''
      then HTTPException 400 mismatch_detail
      else Return \<lparr>name = ''report_office_issue'',
            arguments = json_dumps [(''issue_code'', PInt (int (dec_value ''45321''))),
                                    (''department'', PStr ''Facilities'')]\<rparr>)"
    by (rule resolve_issue) (simp_all add: is_digit_def newline_def)
  then show ?thesis unfolding q json_facilities by simp
qed

lemma json_quoted_room:
  \<open>json_dumps [(''date'', PStr ''2025-02-15''), (''time'', PStr ''14:00''),
               (''meeting_room'', PStr (''Room "A'' @ [CHR 0x5C] @ ''B"''))] =
     (''{"date": "2025-02-15", "time": "14:00", "meeting_room": "Room '' @
                    [CHR 0x5C] @ ''"A'' @ [CHR 0x5C, CHR 0x5C] @ ''B'' @ [CHR 0x5C] @ ''""}'')\<close>
  by (simp add: json_dumps_def json_string_def json_escape_char_def)

lemma quoted_room_outcome:
  \<open>resolve FUNCTION_RULES lim (''Schedule a meeting on 2025-02-15 at 14:00 in Room "A'' @ [CHR 0x5C] @ ''B".'') =
     Return \<lparr>name = ''schedule_meeting'', arguments = (''{"date": "2025-02-15", "time": "14:00", "meeting_room": "Room '' @
                    [CHR 0x5C] @ ''"A'' @ [CHR 0x5C, CHR 0x5C] @ ''B'' @ [CHR 0x5C] @ ''""}'')\<rparr>\<close>
proof -
  have q: \<open>(''Schedule a meeting on 2025-02-15 at 14:00 in Room "A'' @ [CHR 0x5C] @ ''B".'') =
      lead_meeting @ ''2025-02-15'' @ '' at '' @ ''14:00'' @ '' in '' @ (''Room "A'' @ [CHR 0x5C] @ ''B"'') @ ''.'' @ [] @ []\<close>
    by (simp add: lead_meeting_def)
  have \<open>resolve FUNCTION_RULES lim
      (lead_meeting @ ''2025-02-15'' @ '' at '' @ ''14:00'' @ '' in '' @ (''Room "A'' @ [CHR 0x5C] @ ''B"'') @ ''.'' @ [] @ []) =
     Return \<lparr>name = ''schedule_meeting'',
            arguments = json_dumps [(''date'', PStr ''2025-02-15''), (''time'', PStr ''14:00''),
               (''meeting_room'', PStr (''Room "A'' @ [CHR 0x5C] @ ''B"''))]\<rparr>\<close>
    by (rule resolve_meeting)
       (simp_all add: is_digit_def is_date_char_def is_time_char_def newline_def)
  then show ?thesis unfolding q json_quoted_room .
qed

lemma quoted_room_loads:
  \<open>json_loads (''{"date": "2025-02-15", "time": "14:00", "meeting_room": "Room '' @
                    [CHR 0x5C] @ ''"A'' @ [CHR 0x5C, CHR 0x5C] @ ''B'' @ [CHR 0x5C] @ ''""}'') =
     Some [(''date'', PStr ''2025-02-15''), (''time'', PStr ''14:00''),
               (''meeting_room'', PStr (''Room "A'' @ [CHR 0x5C] @ ''B"''))]\<close>
  using json_loads_dumps [of \<open>[(''date'', PStr ''2025-02-15''), (''time'', PStr ''14:00''),
               (''meeting_room'', PStr (''Room "A'' @ [CHR 0x5C] @ ''B"''))]\<close>]
  unfolding json_quoted_room .

section \<open>The groups of the table's patterns\<close>

lemma max_digit_run_ge: "length (takeWhile is_digit (drop n s)) \<le> max_digit_run s"
proof (induction s arbitrary: n)
  case Nil
  then show ?case by simp
next
  case (Cons c cs)
  show ?case
  proof (cases n)
    case 0
    then show ?thesis by simp
  next
    case (Suc m)
    then show ?thesis using Cons.IH [of m] by simp
  qed
qed

lemma max_digit_run_dropWhile:
  "length (takeWhile is_digit (drop n (dropWhile P (drop m s)))) \<le> max_digit_run s"
proof -
  have "dropWhile P (drop m s) = drop (length (takeWhile P (drop m s))) (drop m s)"
    by (rule dropWhile_eq_drop)
  then have "drop n (dropWhile P (drop m s)) = drop (n + length (takeWhile P (drop m s)) + m) s"
    by (simp add: add.commute add.left_commute)
  then show ?thesis by (simp only: max_digit_run_ge)
qed

lemma list_all_takeWhile: "list_all P (takeWhile P xs)"
  by (induction xs) auto

lemma greedy_shape:
  "(c, r) \<in> set (ms (Seq (Group (Rep a lo hi)) (Lit l)) s) \<Longrightarrow> \<exists>x. c = [Some x]"
  by (auto simp only: in_ms_Seq in_ms_Group in_ms_Rep in_ms_Lit)

lemma greedy_head:
  "ms (Seq (Group (Rep a lo hi)) (Lit l)) s = (c, r) # others \<Longrightarrow> \<exists>x. c = [Some x]"
  using greedy_shape [of c r a lo hi l s] by simp

lemma re_match_ticket_Some:
  assumes "re_match (pattern rule_ticket) s = Some v"
  shows "prefix lead_ticket s \<and> v = [Some (takeWhile is_digit (drop (length lead_ticket) s))] \<and>
         takeWhile is_digit (drop (length lead_ticket) s) \<noteq> [] \<and>
         prefix ''?'' (dropWhile is_digit (drop (length lead_ticket) s))"
  using assms by (auto simp: re_match_def ms_ticket Let_def split: if_splits)

lemma re_match_expense_Some:
  assumes "re_match (pattern rule_expense) s = Some v"
  shows "prefix lead_expense s \<and> v = [Some (takeWhile is_digit (drop (length lead_expense) s))] \<and>
         takeWhile is_digit (drop (length lead_expense) s) \<noteq> [] \<and>
         prefix ''.'' (dropWhile is_digit (drop (length lead_expense) s))"
  using assms by (auto simp: re_match_def ms_expense Let_def split: if_splits)

lemma re_match_bonus_Some:
  assumes "re_match (pattern rule_bonus) s = Some v"
  shows "prefix lead_bonus s \<and>
    v = [Some (takeWhile is_digit (drop (length lead_bonus) s)),
         Some (takeWhile is_digit (drop (length '' for '')
                 (dropWhile is_digit (drop (length lead_bonus) s))))] \<and>
    takeWhile is_digit (drop (length lead_bonus) s) \<noteq> [] \<and>
    prefix '' for '' (dropWhile is_digit (drop (length lead_bonus) s)) \<and>
    length (takeWhile is_digit (drop (length '' for '')
                 (dropWhile is_digit (drop (length lead_bonus) s)))) = 4 \<and>
    prefix ''.'' (dropWhile is_digit (drop (length '' for '')
                 (dropWhile is_digit (drop (length lead_bonus) s))))"
  using assms by (auto simp: re_match_def ms_bonus Let_def split: if_splits)

lemma re_match_issue_Some:
  assumes "re_match (pattern rule_issue) s = Some v"
  shows "prefix lead_issue s \<and>
    (\<exists>x. v = [Some (takeWhile is_digit (drop (length lead_issue) s)), Some x]) \<and>
    takeWhile is_digit (drop (length lead_issue) s) \<noteq> [] \<and>
    prefix '' for the '' (dropWhile is_digit (drop (length lead_issue) s)) \<and>
    ms (Seq (Group (Rep Any 0 None)) (Lit '' department.''))
       (drop (length '' for the '') (dropWhile is_digit (drop (length lead_issue) s))) \<noteq> []"
proof -
  let ?g = "ms (Seq (Group (Rep Any 0 None)) (Lit '' department.''))
       (drop (length '' for the '') (dropWhile is_digit (drop (length lead_issue) s)))"
  from assms have c: "prefix lead_issue s"
    "takeWhile is_digit (drop (length lead_issue) s) \<noteq> []"
    "prefix '' for the '' (dropWhile is_digit (drop (length lead_issue) s))"
    and g: "?g \<noteq> []"
    by (auto simp: re_match_def ms_issue Let_def simp del: ms.simps split: if_splits list.splits)
  from g obtain c r others where h: "?g = (c, r) # others" by (cases ?g) auto
  then obtain x where "c = [Some x]" using greedy_head by blast
  with assms c h have "v = [Some (takeWhile is_digit (drop (length lead_issue) s)), Some x]"
    by (simp add: re_match_def ms_issue Let_def del: ms.simps)
  with c g show ?thesis by blast
qed

lemma re_match_meeting_Some:
  assumes "re_match (pattern rule_meeting) s = Some v"
  shows "prefix lead_meeting s \<and> (\<exists>a b x. v = [Some a, Some b, Some x])"
proof -
  let ?s2 = "drop (length '' at '') (dropWhile is_date_char (drop (length lead_meeting) s))"
  let ?g = "ms (Seq (Group (Rep Any 0 None)) (Lit ''.''))
       (drop (length '' in '') (dropWhile is_time_char ?s2))"
  from assms have c: "prefix lead_meeting s"
    "takeWhile is_date_char (drop (length lead_meeting) s) \<noteq> []"
    "prefix '' at '' (dropWhile is_date_char (drop (length lead_meeting) s))"
    "takeWhile is_time_char ?s2 \<noteq> []"
    "prefix '' in '' (dropWhile is_time_char ?s2)"
    and g: "?g \<noteq> []"
    by (auto simp: re_match_def ms_meeting Let_def simp del: ms.simps split: if_splits list.splits)
  from g obtain c r others where h: "?g = (c, r) # others" by (cases ?g) auto
  then obtain x where "c = [Some x]" using greedy_head by blast
  with assms c h have "v = [Some (takeWhile is_date_char (drop (length lead_meeting) s)),
       Some (takeWhile is_time_char ?s2), Some x]"
    by (simp add: re_match_def ms_meeting Let_def del: ms.simps)
  with c show ?thesis by blast
qed

lemma digit_group_int:
  assumes "d \<noteq> []" "list_all is_digit d" "length d \<le> m" "lim = 0 \<or> m \<le> lim \<or> m \<le> 640"
  shows "py_int lim d = Inr (PInt (int (dec_value d)))"
  using assms(3,4) by (auto simp: py_int_digits [OF assms(1,2)])

lemma apply_default_cases:
  assumes "r \<in> set FUNCTION_RULES" "re_match (pattern r) s = Some v"
  shows "apply_rule lim r v = HTTPException 400 mismatch_detail \<or>
         (\<exists>resp. apply_rule lim r v = Return resp \<and> name resp = func_name r)"
proof -
  from assms(1) consider "r = rule_ticket" | "r = rule_meeting" | "r = rule_expense"
    | "r = rule_bonus" | "r = rule_issue"
    by (auto simp: FUNCTION_RULES_def)
  then show ?thesis
  proof cases
    case 1
    with assms(2) obtain d where v: "v = [Some d]" using re_match_ticket_Some by blast
    show ?thesis unfolding 1 v apply_ticket
      by (cases lim d rule: py_int_cases) (simp_all add: rule_ticket_def)
  next
    case 2
    with assms(2) obtain a b x where v: "v = [Some a, Some b, Some x]"
      using re_match_meeting_Some by blast
    show ?thesis unfolding 2 v apply_meeting by (simp add: rule_meeting_def)
  next
    case 3
    with assms(2) obtain d where v: "v = [Some d]" using re_match_expense_Some by blast
    show ?thesis unfolding 3 v apply_expense
      by (cases lim d rule: py_int_cases) (simp_all add: rule_expense_def)
  next
    case 4
    with assms(2) obtain d y where v: "v = [Some d, Some y]" using re_match_bonus_Some by blast
    show ?thesis unfolding 4 v apply_bonus
      by (cases lim d rule: py_int_cases; cases lim y rule: py_int_cases)
         (simp_all add: rule_bonus_def)
  next
    case 5
    with assms(2) obtain d x where v: "v = [Some d, Some x]" using re_match_issue_Some by blast
    show ?thesis unfolding 5 v apply_issue
      by (cases lim d rule: py_int_cases) (simp_all add: rule_issue_def)
  qed
qed

lemma apply_default_ok:
  assumes "r \<in> set FUNCTION_RULES" "re_match (pattern r) s = Some v"
    and ok: "lim = 0 \<or> max_digit_run s \<le> lim \<or> max_digit_run s \<le> 640"
  shows "apply_rule lim r v \<noteq> HTTPException 400 mismatch_detail"
proof -
  from assms(1) consider "r = rule_ticket" | "r = rule_meeting" | "r = rule_expense"
    | "r = rule_bonus" | "r = rule_issue"
    by (auto simp: FUNCTION_RULES_def)
  then show ?thesis
  proof cases
    case 1
    let ?d = "takeWhile is_digit (drop (length lead_ticket) s)"
    from assms(2) 1 have v: "v = [Some ?d]" and d: "?d \<noteq> []"
      using re_match_ticket_Some by blast+
    have "py_int lim ?d = Inr (PInt (int (dec_value ?d)))"
      using d list_all_takeWhile max_digit_run_ge ok by (rule digit_group_int)
    then show ?thesis unfolding 1 v apply_ticket by simp
  next
    case 2
    with assms(2) obtain a b x where v: "v = [Some a, Some b, Some x]"
      using re_match_meeting_Some by blast
    show ?thesis unfolding 2 v apply_meeting by simp
  next
    case 3
    let ?d = "takeWhile is_digit (drop (length lead_expense) s)"
    from assms(2) 3 have v: "v = [Some ?d]" and d: "?d \<noteq> []"
      using re_match_expense_Some by blast+
    have "py_int lim ?d = Inr (PInt (int (dec_value ?d)))"
      using d list_all_takeWhile max_digit_run_ge ok by (rule digit_group_int)
    then show ?thesis unfolding 3 v apply_expense by simp
  next
    case 4
    let ?d = "takeWhile is_digit (drop (length lead_bonus) s)"
    let ?y = "takeWhile is_digit (drop (length '' for '')
                 (dropWhile is_digit (drop (length lead_bonus) s)))"
    from assms(2) 4 have v: "v = [Some ?d, Some ?y]" and d: "?d \<noteq> []" and y: "length ?y = 4"
      using re_match_bonus_Some by blast+
    have "py_int lim ?d = Inr (PInt (int (dec_value ?d)))"
      using d list_all_takeWhile max_digit_run_ge ok by (rule digit_group_int)
    moreover have "?y \<noteq> []" using y by auto
    then have "py_int lim ?y = Inr (PInt (int (dec_value ?y)))"
      using list_all_takeWhile max_digit_run_dropWhile ok by (rule digit_group_int)
    ultimately show ?thesis unfolding 4 v apply_bonus by simp
  next
    case 5
    let ?d = "takeWhile is_digit (drop (length lead_issue) s)"
    from assms(2) 5 obtain x where v: "v = [Some ?d, Some x]" and d: "?d \<noteq> []"
      using re_match_issue_Some by blast
    have "py_int lim ?d = Inr (PInt (int (dec_value ?d)))"
      using d list_all_takeWhile max_digit_run_ge ok by (rule digit_group_int)
    then show ?thesis unfolding 5 v apply_issue by simp
  qed
qed

lemma default_groups:
  assumes "r \<in> set FUNCTION_RULES" "re_match (pattern r) s = Some v"
  shows "length v = length (arg_names r) \<and> length (arg_types r) = length (arg_names r) \<and>
         (\<forall>i<length v. \<exists>d. v ! i = Some d \<and>
            (arg_types r ! i = TInt \<longrightarrow> d \<noteq> [] \<and> list_all is_digit d))"
proof -
  from assms(1) consider "r = rule_ticket" | "r = rule_meeting" | "r = rule_expense"
    | "r = rule_bonus" | "r = rule_issue"
    by (auto simp: FUNCTION_RULES_def)
  then show ?thesis
  proof cases
    case 1
    let ?d = "takeWhile is_digit (drop (length lead_ticket) s)"
    from assms(2) 1 have v: "v = [Some ?d]" and d: "?d \<noteq> []"
      using re_match_ticket_Some by blast+
    show ?thesis unfolding 1 v using d by (simp add: rule_ticket_def list_all_takeWhile)
  next
    case 2
    with assms(2) obtain a b x where "v = [Some a, Some b, Some x]"
      using re_match_meeting_Some by blast
    then show ?thesis unfolding 2 by (simp add: rule_meeting_def All_less_Suc2)
  next
    case 3
    let ?d = "takeWhile is_digit (drop (length lead_expense) s)"
    from assms(2) 3 have v: "v = [Some ?d]" and d: "?d \<noteq> []"
      using re_match_expense_Some by blast+
    show ?thesis unfolding 3 v using d by (simp add: rule_expense_def list_all_takeWhile)
  next
    case 4
    let ?d = "takeWhile is_digit (drop (length lead_bonus) s)"
    let ?y = "takeWhile is_digit (drop (length '' for '')
                 (dropWhile is_digit (drop (length lead_bonus) s)))"
    from assms(2) 4 have v: "v = [Some ?d, Some ?y]" and d: "?d \<noteq> []" and y: "length ?y = 4"
      using re_match_bonus_Some by blast+
    from y have "?y \<noteq> []" by auto
    then show ?thesis unfolding 4 v using d
      by (simp add: rule_bonus_def list_all_takeWhile All_less_Suc2 del: length_0_conv)
  next
    case 5
    let ?d = "takeWhile is_digit (drop (length lead_issue) s)"
    from assms(2) 5 obtain x where v: "v = [Some ?d, Some x]" and d: "?d \<noteq> []"
      using re_match_issue_Some by blast
    show ?thesis unfolding 5 v using d
      by (simp add: rule_issue_def list_all_takeWhile All_less_Suc2)
  qed
qed

lemma resolve_default_member:
  "resolve FUNCTION_RULES lim s = HTTPException 404 no_match_detail \<or>
   (\<exists>r v. r \<in> set FUNCTION_RULES \<and> re_match (pattern r) s = Some v \<and>
      resolve FUNCTION_RULES lim s = apply_rule lim r v)"
proof -
  from resolve_cases [of FUNCTION_RULES lim s] show ?thesis
  proof
    assume "resolve FUNCTION_RULES lim s = HTTPException 404 no_match_detail \<and>
      (\<forall>p\<in>set FUNCTION_RULES. re_match (pattern p) s = None)"
    then show ?thesis by blast
  next
    assume "\<exists>pre r post vals. FUNCTION_RULES = pre @ r # post \<and>
       (\<forall>p\<in>set pre. re_match (pattern p) s = None) \<and>
       re_match (pattern r) s = Some vals \<and>
       resolve FUNCTION_RULES lim s = apply_rule lim r vals"
    then obtain pre r post vals where *: "FUNCTION_RULES = pre @ r # post"
      "re_match (pattern r) s = Some vals"
      "resolve FUNCTION_RULES lim s = apply_rule lim r vals" by blast
    have "r \<in> set FUNCTION_RULES" unfolding *(1) by simp
    with *(2,3) show ?thesis by blast
  qed
qed

lemma max_digit_run_le_length: "max_digit_run s \<le> length s"
proof (induction s)
  case Nil
  then show ?case by simp
next
  case (Cons c cs)
  have "length (takeWhile is_digit (c # cs)) \<le> length (c # cs)"
    by (rule length_takeWhile_le)
  with Cons show ?case by simp
qed

section \<open>Text after a match\<close>

lemma while_stable:
  "dropWhile P s \<noteq> [] \<Longrightarrow>
   takeWhile P (s @ t) = takeWhile P s \<and> dropWhile P (s @ t) = dropWhile P s @ t"
  by (induction s) auto

lemma prefix_Cons_nonempty: "prefix (c # l) x \<Longrightarrow> x \<noteq> []"
  by auto

lemma drop_append_prefix: "prefix l x \<Longrightarrow> drop (length l) (x @ t) = drop (length l) x @ t"
  by (auto simp: prefix_def)

lemma re_match_ticket_append:
  assumes "re_match (pattern rule_ticket) q = Some v"
  shows "re_match (pattern rule_ticket) (q @ t) = Some v"
proof -
  let ?s = "drop (length lead_ticket) q"
  from re_match_ticket_Some [OF assms] have p: "prefix lead_ticket q"
    and v: "v = [Some (takeWhile is_digit ?s)]" and d: "takeWhile is_digit ?s \<noteq> []"
    and e: "prefix ''?'' (dropWhile is_digit ?s)" by blast+
  from e have "dropWhile is_digit ?s \<noteq> []" by (rule prefix_Cons_nonempty)
  then have w: "takeWhile is_digit (?s @ t) = takeWhile is_digit ?s"
    "dropWhile is_digit (?s @ t) = dropWhile is_digit ?s @ t"
    using while_stable by blast+
  have e': "prefix ''?'' (dropWhile is_digit ?s @ t)" using e by (rule prefix_prefix)
  have p': "prefix lead_ticket (q @ t)" using p by (rule prefix_prefix)
  have "ms (pattern rule_ticket) (q @ t) =
      [([Some (takeWhile is_digit ?s)], drop 1 (dropWhile is_digit ?s @ t))]"
    unfolding ms_ticket Let_def drop_append_prefix [OF p] w
    using p' d e' by simp
  then show ?thesis by (simp add: re_match_def v)
qed

lemma re_match_expense_append:
  assumes "re_match (pattern rule_expense) q = Some v"
  shows "re_match (pattern rule_expense) (q @ t) = Some v"
proof -
  let ?s = "drop (length lead_expense) q"
  from re_match_expense_Some [OF assms] have p: "prefix lead_expense q"
    and v: "v = [Some (takeWhile is_digit ?s)]" and d: "takeWhile is_digit ?s \<noteq> []"
    and e: "prefix ''.'' (dropWhile is_digit ?s)" by blast+
  from e have "dropWhile is_digit ?s \<noteq> []" by (rule prefix_Cons_nonempty)
  then have w: "takeWhile is_digit (?s @ t) = takeWhile is_digit ?s"
    "dropWhile is_digit (?s @ t) = dropWhile is_digit ?s @ t"
    using while_stable by blast+
  have e': "prefix ''.'' (dropWhile is_digit ?s @ t)" using e by (rule prefix_prefix)
  have p': "prefix lead_expense (q @ t)" using p by (rule prefix_prefix)
  have "ms (pattern rule_expense) (q @ t) =
      [([Some (takeWhile is_digit ?s)], drop 1 (dropWhile is_digit ?s @ t))]"
    unfolding ms_expense Let_def drop_append_prefix [OF p] w
    using p' d e' by simp
  then show ?thesis by (simp add: re_match_def v)
qed

lemma re_match_bonus_append:
  assumes "re_match (pattern rule_bonus) q = Some v"
  shows "re_match (pattern rule_bonus) (q @ t) = Some v"
proof -
  let ?s = "drop (length lead_bonus) q"
  let ?s2 = "drop (length '' for '') (dropWhile is_digit ?s)"
  from re_match_bonus_Some [OF assms] have p: "prefix lead_bonus q"
    and v: "v = [Some (takeWhile is_digit ?s), Some (takeWhile is_digit ?s2)]"
    and d: "takeWhile is_digit ?s \<noteq> []"
    and e: "prefix '' for '' (dropWhile is_digit ?s)"
    and y: "length (takeWhile is_digit ?s2) = 4"
    and f: "prefix ''.'' (dropWhile is_digit ?s2)" by blast+
  from e have "dropWhile is_digit ?s \<noteq> []" by (rule prefix_Cons_nonempty)
  then have w: "takeWhile is_digit (?s @ t) = takeWhile is_digit ?s"
    "dropWhile is_digit (?s @ t) = dropWhile is_digit ?s @ t"
    using while_stable by blast+
  from f have "dropWhile is_digit ?s2 \<noteq> []" by (rule prefix_Cons_nonempty)
  then have w2: "takeWhile is_digit (?s2 @ t) = takeWhile is_digit ?s2"
    "dropWhile is_digit (?s2 @ t) = dropWhile is_digit ?s2 @ t"
    using while_stable by blast+
  have e': "prefix '' for '' (dropWhile is_digit ?s @ t)" using e by (rule prefix_prefix)
  have f': "prefix ''.'' (dropWhile is_digit ?s2 @ t)" using f by (rule prefix_prefix)
  have s2: "drop (length '' for '') (dropWhile is_digit ?s @ t) = ?s2 @ t"
    using e by (rule drop_append_prefix)
  have p': "prefix lead_bonus (q @ t)" using p by (rule prefix_prefix)
  have "ms (pattern rule_bonus) (q @ t) =
      [([Some (takeWhile is_digit ?s), Some (takeWhile is_digit ?s2)],
        drop 1 (dropWhile is_digit ?s2 @ t))]"
    unfolding ms_bonus Let_def drop_append_prefix [OF p] w s2 w2
    using p' d e' y f' by simp
  then show ?thesis by (simp add: re_match_def v)
qed

lemma ms_nonempty_append: "ms r s \<noteq> [] \<Longrightarrow> ms r (s @ t) \<noteq> []"
proof -
  assume "ms r s \<noteq> []"
  then obtain c rest where "(c, rest) \<in> set (ms r s)" by (cases "ms r s") auto
  then have "(c, rest @ t) \<in> set (ms r (s @ t))" by (rule ms_append)
  then show ?thesis by auto
qed

lemma re_match_issue_append:
  assumes "re_match (pattern rule_issue) q = Some v"
  shows "\<exists>d x x'. v = [Some d, Some x] \<and>
           re_match (pattern rule_issue) (q @ t) = Some [Some d, Some x']"
proof -
  let ?s = "drop (length lead_issue) q"
  let ?s3 = "drop (length '' for the '') (dropWhile is_digit ?s)"
  let ?G = "Seq (Group (Rep Any 0 None)) (Lit '' department.'')"
  from re_match_issue_Some [OF assms] obtain x where p: "prefix lead_issue q"
    and v: "v = [Some (takeWhile is_digit ?s), Some x]"
    and d: "takeWhile is_digit ?s \<noteq> []"
    and e: "prefix '' for the '' (dropWhile is_digit ?s)"
    and g: "ms ?G ?s3 \<noteq> []" by blast
  from e have "dropWhile is_digit ?s \<noteq> []" by (rule prefix_Cons_nonempty)
  then have w: "takeWhile is_digit (?s @ t) = takeWhile is_digit ?s"
    "dropWhile is_digit (?s @ t) = dropWhile is_digit ?s @ t"
    using while_stable by blast+
  have e': "prefix '' for the '' (dropWhile is_digit ?s @ t)" using e by (rule prefix_prefix)
  have s3: "drop (length '' for the '') (dropWhile is_digit ?s @ t) = ?s3 @ t"
    using e by (rule drop_append_prefix)
  have p': "prefix lead_issue (q @ t)" using p by (rule prefix_prefix)
  have m: "ms (pattern rule_issue) (q @ t) =
      map (\<lambda>(c2, r2). (Some (takeWhile is_digit ?s) # c2, r2)) (ms ?G (?s3 @ t))"
    unfolding ms_issue Let_def drop_append_prefix [OF p] w s3
    using p' d e' by (simp del: ms.simps)
  from g have "ms ?G (?s3 @ t) \<noteq> []" by (rule ms_nonempty_append)
  then obtain c r others where h: "ms ?G (?s3 @ t) = (c, r) # others"
    by (cases "ms ?G (?s3 @ t)") auto
  then obtain x' where "c = [Some x']" using greedy_head by blast
  with m h have "re_match (pattern rule_issue) (q @ t) = Some [Some (takeWhile is_digit ?s), Some x']"
    by (simp add: re_match_def del: ms.simps)
  with v show ?thesis by blast
qed

lemma re_match_meeting_append:
  assumes "re_match (pattern rule_meeting) q = Some v"
  shows "\<exists>a b x. re_match (pattern rule_meeting) (q @ t) = Some [Some a, Some b, Some x]"
proof -
  from assms have "re_match (pattern rule_meeting) q \<noteq> None" by simp
  then have "re_match (pattern rule_meeting) (q @ t) \<noteq> None" by (rule re_match_append)
  then obtain v' where "re_match (pattern rule_meeting) (q @ t) = Some v'" by blast
  with re_match_meeting_Some [of "q @ t" v'] show ?thesis by blast
qed

lemma resolve_on_ticket:
  assumes p: "prefix lead_ticket q"
  shows "resolve FUNCTION_RULES lim q =
     (case re_match (pattern rule_ticket) q of
        None \<Rightarrow> HTTPException 404 no_match_detail | Some v \<Rightarrow> apply_rule lim rule_ticket v)"
  using p lead_exclusive(1) [OF p] by (simp only: resolve_default if_True if_False)

lemma resolve_on_meeting:
  assumes p: "prefix lead_meeting q"
  shows "resolve FUNCTION_RULES lim q =
     (case re_match (pattern rule_meeting) q of
        None \<Rightarrow> HTTPException 404 no_match_detail | Some v \<Rightarrow> apply_rule lim rule_meeting v)"
  using p lead_exclusive(2) [OF p] by (simp only: resolve_default if_True if_False)

lemma resolve_on_expense:
  assumes p: "prefix lead_expense q"
  shows "resolve FUNCTION_RULES lim q =
     (case re_match (pattern rule_expense) q of
        None \<Rightarrow> HTTPException 404 no_match_detail | Some v \<Rightarrow> apply_rule lim rule_expense v)"
  using p lead_exclusive(3) [OF p] by (simp only: resolve_default if_True if_False)

lemma resolve_on_bonus:
  assumes p: "prefix lead_bonus q"
  shows "resolve FUNCTION_RULES lim q =
     (case re_match (pattern rule_bonus) q of
        None \<Rightarrow> HTTPException 404 no_match_detail | Some v \<Rightarrow> apply_rule lim rule_bonus v)"
  using p lead_exclusive(4) [OF p] by (simp only: resolve_default if_True if_False)

lemma resolve_on_issue:
  assumes p: "prefix lead_issue q"
  shows "resolve FUNCTION_RULES lim q =
     (case re_match (pattern rule_issue) q of
        None \<Rightarrow> HTTPException 404 no_match_detail | Some v \<Rightarrow> apply_rule lim rule_issue v)"
  using p lead_exclusive(5) [OF p] by (simp only: resolve_default if_True if_False)

lemma no_lead_404:
  assumes "\<not> prefix lead_ticket q" "\<not> prefix lead_meeting q" "\<not> prefix lead_expense q"
    "\<not> prefix lead_bonus q" "\<not> prefix lead_issue q"
  shows "resolve FUNCTION_RULES lim q = HTTPException 404 no_match_detail"
  using assms by (simp only: resolve_default if_False)

lemma resolve_append_name:
  assumes "resolve FUNCTION_RULES lim q = Return resp"
  shows "\<exists>resp'. resolve FUNCTION_RULES lim (q @ t) = Return resp' \<and> name resp' = name resp"
proof -
  consider "prefix lead_ticket q" | "prefix lead_meeting q" | "prefix lead_expense q"
    | "prefix lead_bonus q" | "prefix lead_issue q"
    | "\<not> prefix lead_ticket q" "\<not> prefix lead_meeting q" "\<not> prefix lead_expense q"
      "\<not> prefix lead_bonus q" "\<not> prefix lead_issue q"
    by blast
  then show ?thesis
  proof cases
    case 1
    then have p': "prefix lead_ticket (q @ t)" by (rule prefix_prefix)
    from assms obtain v where v: "re_match (pattern rule_ticket) q = Some v"
      and a: "apply_rule lim rule_ticket v = Return resp"
      unfolding resolve_on_ticket [OF 1] by (auto split: option.splits)
    from v have "re_match (pattern rule_ticket) (q @ t) = Some v"
      by (rule re_match_ticket_append)
    then show ?thesis unfolding resolve_on_ticket [OF p'] using a by simp
  next
    case 2
    then have p': "prefix lead_meeting (q @ t)" by (rule prefix_prefix)
    from assms obtain v where v: "re_match (pattern rule_meeting) q = Some v"
      and a: "apply_rule lim rule_meeting v = Return resp"
      unfolding resolve_on_meeting [OF 2] by (auto split: option.splits)
    from re_match_meeting_Some [OF v] obtain a0 b0 x0 where v0: "v = [Some a0, Some b0, Some x0]"
      by blast
    from re_match_meeting_append [OF v, of t] obtain a1 b1 x1 where
      "re_match (pattern rule_meeting) (q @ t) = Some [Some a1, Some b1, Some x1]" by blast
    then show ?thesis unfolding resolve_on_meeting [OF p']
      using a unfolding v0 by (auto simp: apply_meeting)
  next
    case 3
    then have p': "prefix lead_expense (q @ t)" by (rule prefix_prefix)
    from assms obtain v where v: "re_match (pattern rule_expense) q = Some v"
      and a: "apply_rule lim rule_expense v = Return resp"
      unfolding resolve_on_expense [OF 3] by (auto split: option.splits)
    from v have "re_match (pattern rule_expense) (q @ t) = Some v"
      by (rule re_match_expense_append)
    then show ?thesis unfolding resolve_on_expense [OF p'] using a by simp
  next
    case 4
    then have p': "prefix lead_bonus (q @ t)" by (rule prefix_prefix)
    from assms obtain v where v: "re_match (pattern rule_bonus) q = Some v"
      and a: "apply_rule lim rule_bonus v = Return resp"
      unfolding resolve_on_bonus [OF 4] by (auto split: option.splits)
    from v have "re_match (pattern rule_bonus) (q @ t) = Some v"
      by (rule re_match_bonus_append)
    then show ?thesis unfolding resolve_on_bonus [OF p'] using a by simp
  next
    case 5
    then have p': "prefix lead_issue (q @ t)" by (rule prefix_prefix)
    from assms obtain v where v: "re_match (pattern rule_issue) q = Some v"
      and a: "apply_rule lim rule_issue v = Return resp"
      unfolding resolve_on_issue [OF 5] by (auto split: option.splits)
    from re_match_issue_append [OF v, of t] obtain d x x' where v0: "v = [Some d, Some x]"
      and m: "re_match (pattern rule_issue) (q @ t) = Some [Some d, Some x']" by blast
    show ?thesis unfolding resolve_on_issue [OF p'] m
      using a unfolding v0
      by (cases lim d rule: py_int_cases) (auto simp: apply_issue)
  next
    case 6
    then have "resolve FUNCTION_RULES lim q = HTTPException 404 no_match_detail"
      by (rule no_lead_404)
    with assms show ?thesis by simp
  qed
qed

lemma ticket_hurry_outcome:
  \<open>resolve FUNCTION_RULES lim ''What is the status of ticket 83742? Please hurry.'' =
     Return \<lparr>name = ''get_ticket_status'', arguments = ''{"ticket_id": 83742}''\<rparr>\<close>
proof -
  have q: "''What is the status of ticket 83742? Please hurry.'' =
      lead_ticket @ ''83742'' @ ''?'' @ '' Please hurry.''"
    by (simp add: lead_ticket_def)
  have m: "re_match (pattern rule_ticket) (lead_ticket @ ''83742'' @ ''?'' @ '' Please hurry.'') =
      Some [Some ''83742'']"
    by (rule ticket_match) (simp_all add: is_digit_def)
  have p: "prefix lead_ticket (lead_ticket @ ''83742'' @ ''?'' @ '' Please hurry.'')" by simp
  show ?thesis unfolding q
    by (simp only: resolve_on_ticket [OF p] m option.case apply_ticket py_int_83742 sum.case
        json_ticket)
qed

section \<open>The properties of the specification\<close>

subsection \<open>A request without the parameter\<close>

text \<open>
  Claim C1, as amended. A request without the parameter \<^verbatim>\<open>q\<close> is answered with
  HTTP 400 and the message "Missing query parameter 'q'" whatever the rule table is:
  the table is not consulted. (The guard is \<^verbatim>\<open>q is None\<close>; an empty string passes it.)
\<close>

theorem missing_query_400:
  "handle rules lim None = HTTPException 400 missing_detail \<and>
   execute_query lim None = HTTPException 400 missing_detail"
  by (simp add: handle_def execute_query_def)

text \<open>
  Claim C1 as stated fails for the empty string: it is matched against the rule table
  and, no rule matching it, answered with 404.
\<close>

theorem empty_query_is_404:
  "execute_query default_max_str_digits (Some '''') = HTTPException 404 no_match_detail \<and>
   execute_query default_max_str_digits (Some '''') \<noteq> HTTPException 400 missing_detail"
  by (simp add: execute_query_def handle_def resolve_default
      lead_ticket_def lead_meeting_def lead_expense_def lead_bonus_def lead_issue_def)

subsection \<open>Matching at the start of the query\<close>

text \<open>
  Claim C2. \<^verbatim>\<open>pattern.match\<close> is a match at the start of the string, not of the whole
  string: a pattern that matches a query matches it followed by any text; under the
  table of the program the longer query is answered with the same function as the
  shorter one; and "What is the status of ticket 83742? Please hurry." is answered
  exactly as the query without " Please hurry.".
\<close>

theorem prefix_match:
  \<open>(re_match r q \<noteq> None \<longrightarrow> re_match r (q @ t) \<noteq> None) \<and>
   (execute_query lim (Some q) = Return resp \<longrightarrow>
      (\<exists>resp'. execute_query lim (Some (q @ t)) = Return resp' \<and> name resp' = name resp)) \<and>
   execute_query lim (Some ''What is the status of ticket 83742? Please hurry.'') =
     Return \<lparr>name = ''get_ticket_status'', arguments = ''{"ticket_id": 83742}''\<rparr> \<and>
   execute_query lim (Some ''What is the status of ticket 83742? Please hurry.'') =
     execute_query lim (Some ''What is the status of ticket 83742?'')\<close>
proof -
  have a: "re_match r q \<noteq> None \<longrightarrow> re_match r (q @ t) \<noteq> None"
    using re_match_append by blast
  have b: "execute_query lim (Some q) = Return resp \<longrightarrow>
      (\<exists>resp'. execute_query lim (Some (q @ t)) = Return resp' \<and> name resp' = name resp)"
    using resolve_append_name [of lim q resp t] by (simp add: execute_query_def handle_def)
  have c: \<open>execute_query lim (Some ''What is the status of ticket 83742? Please hurry.'') =
     Return \<lparr>name = ''get_ticket_status'', arguments = ''{"ticket_id": 83742}''\<rparr>\<close>
    by (simp only: execute_query_def handle_def option.case ticket_hurry_outcome)
  have d: \<open>execute_query lim (Some ''What is the status of ticket 83742?'') =
     Return \<lparr>name = ''get_ticket_status'', arguments = ''{"ticket_id": 83742}''\<rparr>\<close>
    by (simp only: execute_query_def handle_def option.case ticket_outcome)
  from a b c d show ?thesis by (simp only: simp_thms)
qed

theorem prefix_match_witness:
  \<open>re_match (pattern rule_expense) ''Show my expense balance for employee 10056.'' \<noteq> None \<and>
   re_match (pattern rule_expense) (''Show my expense balance for employee 10056.'' @ '' Thanks'')
     \<noteq> None \<and>
   execute_query 0 (Some ''What is the status of ticket 83742?'') =
     Return \<lparr>name = ''get_ticket_status'', arguments = ''{"ticket_id": 83742}''\<rparr> \<and>
   (\<exists>resp'. execute_query 0 (Some (''What is the status of ticket 83742?'' @ ''!!'')) = Return resp' \<and>
      name resp' = name \<lparr>name = ''get_ticket_status'', arguments = ''{"ticket_id": 83742}''\<rparr>)\<close>
proof -
  have q: "''Show my expense balance for employee 10056.'' = lead_expense @ ''10056'' @ ''.'' @ []"
    by (simp add: lead_expense_def)
  have "re_match (pattern rule_expense) (lead_expense @ ''10056'' @ ''.'' @ []) = Some [Some ''10056'']"
    by (rule expense_match) (simp_all add: is_digit_def)
  then have 1: "re_match (pattern rule_expense) ''Show my expense balance for employee 10056.'' \<noteq> None"
    unfolding q by simp
  note w1 = prefix_match [where r = "pattern rule_expense"
      and q = "''Show my expense balance for employee 10056.''" and t = "'' Thanks''"]
  from w1 [THEN conjunct1] 1
  have 2: "re_match (pattern rule_expense)
      (''Show my expense balance for employee 10056.'' @ '' Thanks'') \<noteq> None" by blast
  have 3: \<open>execute_query 0 (Some ''What is the status of ticket 83742?'') =
     Return \<lparr>name = ''get_ticket_status'', arguments = ''{"ticket_id": 83742}''\<rparr>\<close>
    by (simp only: execute_query_def handle_def option.case ticket_outcome)
  note w2 = prefix_match [where lim = 0 and q = "''What is the status of ticket 83742?''"
      and t = "''!!''"
      and resp = \<open>\<lparr>name = ''get_ticket_status'', arguments = ''{"ticket_id": 83742}''\<rparr>\<close>]
  from w2 [THEN conjunct2, THEN conjunct1] 3
  have 4: \<open>\<exists>resp'. execute_query 0 (Some (''What is the status of ticket 83742?'' @ ''!!'')) = Return resp' \<and>
      name resp' = name \<lparr>name = ''get_ticket_status'', arguments = ''{"ticket_id": 83742}''\<rparr>\<close>
    by blast
  from 1 2 3 4 show ?thesis by (intro conjI)
qed

subsection \<open>The first matching rule decides\<close>

text \<open>
  Claim C3. When the patterns of several rules match the query, the outcome is that of
  the first of them in the order of the table, whatever the rules after it are.
\<close>

theorem first_match_wins:
  assumes "\<forall>p\<in>set pre. re_match (pattern p) q = None"
    and "re_match (pattern r) q = Some vals"
  shows "resolve (pre @ r # post) lim q = apply_rule lim r vals \<and>
         resolve (pre @ r # post) lim q = resolve (pre @ [r]) lim q"
  using assms resolve_first_match [of pre q r vals post lim]
    resolve_first_match [of pre q r vals "[]" lim] by simp

theorem first_match_wins_witness:
  "re_match (pattern rule_ticket) ''What is the status of ticket 83742?'' = Some [Some ''83742''] \<and>
   re_match (pattern (rule_ticket\<lparr>func_name := ''second''\<rparr>))
       ''What is the status of ticket 83742?'' = Some [Some ''83742''] \<and>
   resolve ([] @ rule_ticket # [rule_ticket\<lparr>func_name := ''second''\<rparr>]) 0
       ''What is the status of ticket 83742?'' = apply_rule 0 rule_ticket [Some ''83742''] \<and>
   resolve ([] @ rule_ticket # [rule_ticket\<lparr>func_name := ''second''\<rparr>]) 0
       ''What is the status of ticket 83742?'' =
     resolve ([] @ [rule_ticket]) 0 ''What is the status of ticket 83742?''"
proof -
  have e: "\<forall>p\<in>set []. re_match (pattern p) ''What is the status of ticket 83742?'' = None"
    by simp
  have m2: "re_match (pattern (rule_ticket\<lparr>func_name := ''second''\<rparr>))
       ''What is the status of ticket 83742?'' = Some [Some ''83742'']"
    using ticket_query_match by simp
  from first_match_wins [OF e ticket_query_match, of "[rule_ticket\<lparr>func_name := ''second''\<rparr>]" 0]
    ticket_query_match e m2
  show ?thesis by blast
qed

subsection \<open>The shape of a successful response\<close>

text \<open>
  Claim C4. A successful outcome carries the function name of the first rule whose
  pattern matches, and as \<open>arguments\<close> one string, not an object: the
  \<^verbatim>\<open>json.dumps\<close> text of the dict of the converted values. That string is JSON for
  the dict: read as JSON it gives the dict back, with its keys, which are the argument
  names in their order (each name once, where it first occurs), and its values.
\<close>

theorem success_response:
  assumes "resolve rules lim q = Return resp"
  shows "\<exists>pre r post vals args.
           rules = pre @ r # post \<and> (\<forall>p\<in>set pre. re_match (pattern p) q = None) \<and>
           re_match (pattern r) q = Some vals \<and>
           build_arguments lim (arg_types r) vals (enumerate 0 (arg_names r)) [] = Inr args \<and>
           name resp = func_name r \<and> arguments resp = json_dumps args \<and>
           json_loads (arguments resp) = Some args \<and>
           map fst args = first_occurrences (arg_names r) \<and>
           (distinct (arg_names r) \<longrightarrow> map fst args = arg_names r)"
proof -
  from resolve_cases [of rules lim q] assms obtain pre r post vals where
    *: "rules = pre @ r # post" "\<forall>p\<in>set pre. re_match (pattern p) q = None"
       "re_match (pattern r) q = Some vals" "apply_rule lim r vals = Return resp"
    by auto
  from apply_rule_Return [OF *(4)] obtain args where
    args: "build_arguments lim (arg_types r) vals (enumerate 0 (arg_names r)) [] = Inr args"
      "name resp = func_name r" "arguments resp = json_dumps args"
    by blast
  have keys: "map fst args = first_occurrences (arg_names r)"
    using build_keys_first [OF args(1)] by (simp add: map_snd_enumerate)
  then have "map fst args = arg_names r" if "distinct (arg_names r)"
    using that by (simp add: first_occurrences_distinct)
  moreover have "json_loads (arguments resp) = Some args"
    unfolding args(3) by (rule json_loads_dumps)
  ultimately show ?thesis using * args keys by blast
qed

theorem success_response_witness:
  \<open>resolve FUNCTION_RULES 0 (''Schedule a meeting on 2025-02-15 at 14:00 in Room "A'' @ [CHR 0x5C] @ ''B".'') =
     Return \<lparr>name = ''schedule_meeting'', arguments = (''{"date": "2025-02-15", "time": "14:00", "meeting_room": "Room '' @
                    [CHR 0x5C] @ ''"A'' @ [CHR 0x5C, CHR 0x5C] @ ''B'' @ [CHR 0x5C] @ ''""}'')\<rparr> \<and>
   json_loads (''{"date": "2025-02-15", "time": "14:00", "meeting_room": "Room '' @
                    [CHR 0x5C] @ ''"A'' @ [CHR 0x5C, CHR 0x5C] @ ''B'' @ [CHR 0x5C] @ ''""}'') =
     Some [(''date'', PStr ''2025-02-15''), (''time'', PStr ''14:00''),
               (''meeting_room'', PStr (''Room "A'' @ [CHR 0x5C] @ ''B"''))] \<and>
   (\<exists>pre r post vals args.
           FUNCTION_RULES = pre @ r # post \<and>
           (\<forall>p\<in>set pre. re_match (pattern p) (''Schedule a meeting on 2025-02-15 at 14:00 in Room "A'' @ [CHR 0x5C] @ ''B".'') = None) \<and>
           re_match (pattern r) (''Schedule a meeting on 2025-02-15 at 14:00 in Room "A'' @ [CHR 0x5C] @ ''B".'') = Some vals \<and>
           build_arguments 0 (arg_types r) vals (enumerate 0 (arg_names r)) [] = Inr args \<and>
           name \<lparr>name = ''schedule_meeting'', arguments = (''{"date": "2025-02-15", "time": "14:00", "meeting_room": "Room '' @
                    [CHR 0x5C] @ ''"A'' @ [CHR 0x5C, CHR 0x5C] @ ''B'' @ [CHR 0x5C] @ ''""}'')\<rparr> = func_name r \<and>
           arguments \<lparr>name = ''schedule_meeting'', arguments = (''{"date": "2025-02-15", "time": "14:00", "meeting_room": "Room '' @
                    [CHR 0x5C] @ ''"A'' @ [CHR 0x5C, CHR 0x5C] @ ''B'' @ [CHR 0x5C] @ ''""}'')\<rparr> = json_dumps args \<and>
           json_loads (arguments \<lparr>name = ''schedule_meeting'', arguments = (''{"date": "2025-02-15", "time": "14:00", "meeting_room": "Room '' @
                    [CHR 0x5C] @ ''"A'' @ [CHR 0x5C, CHR 0x5C] @ ''B'' @ [CHR 0x5C] @ ''""}'')\<rparr>) = Some args \<and>
           map fst args = first_occurrences (arg_names r) \<and>
           (distinct (arg_names r) \<longrightarrow> map fst args = arg_names r))\<close>
proof (intro conjI)
  show \<open>resolve FUNCTION_RULES 0 (''Schedule a meeting on 2025-02-15 at 14:00 in Room "A'' @ [CHR 0x5C] @ ''B".'') =
     Return \<lparr>name = ''schedule_meeting'', arguments = (''{"date": "2025-02-15", "time": "14:00", "meeting_room": "Room '' @
                    [CHR 0x5C] @ ''"A'' @ [CHR 0x5C, CHR 0x5C] @ ''B'' @ [CHR 0x5C] @ ''""}'')\<rparr>\<close>
    by (rule quoted_room_outcome)
  then show \<open>\<exists>pre r post vals args.
           FUNCTION_RULES = pre @ r # post \<and>
           (\<forall>p\<in>set pre. re_match (pattern p) (''Schedule a meeting on 2025-02-15 at 14:00 in Room "A'' @ [CHR 0x5C] @ ''B".'') = None) \<and>
           re_match (pattern r) (''Schedule a meeting on 2025-02-15 at 14:00 in Room "A'' @ [CHR 0x5C] @ ''B".'') = Some vals \<and>
           build_arguments 0 (arg_types r) vals (enumerate 0 (arg_names r)) [] = Inr args \<and>
           name \<lparr>name = ''schedule_meeting'', arguments = (''{"date": "2025-02-15", "time": "14:00", "meeting_room": "Room '' @
                    [CHR 0x5C] @ ''"A'' @ [CHR 0x5C, CHR 0x5C] @ ''B'' @ [CHR 0x5C] @ ''""}'')\<rparr> = func_name r \<and>
           arguments \<lparr>name = ''schedule_meeting'', arguments = (''{"date": "2025-02-15", "time": "14:00", "meeting_room": "Room '' @
                    [CHR 0x5C] @ ''"A'' @ [CHR 0x5C, CHR 0x5C] @ ''B'' @ [CHR 0x5C] @ ''""}'')\<rparr> = json_dumps args \<and>
           json_loads (arguments \<lparr>name = ''schedule_meeting'', arguments = (''{"date": "2025-02-15", "time": "14:00", "meeting_room": "Room '' @
                    [CHR 0x5C] @ ''"A'' @ [CHR 0x5C, CHR 0x5C] @ ''B'' @ [CHR 0x5C] @ ''""}'')\<rparr>) = Some args \<and>
           map fst args = first_occurrences (arg_names r) \<and>
           (distinct (arg_names r) \<longrightarrow> map fst args = arg_names r)\<close>
    by (rule success_response)
  show \<open>json_loads (''{"date": "2025-02-15", "time": "14:00", "meeting_room": "Room '' @
                    [CHR 0x5C] @ ''"A'' @ [CHR 0x5C, CHR 0x5C] @ ''B'' @ [CHR 0x5C] @ ''""}'') =
     Some [(''date'', PStr ''2025-02-15''), (''time'', PStr ''14:00''),
               (''meeting_room'', PStr (''Room "A'' @ [CHR 0x5C] @ ''B"''))]\<close>
    by (rule quoted_room_loads)
qed

subsection \<open>The ticket query\<close>

text \<open>
  Claim C5. The query "What is the status of ticket 83742?" matches the first rule
  with the group \<open>83742\<close>; the dict of arguments maps \<open>ticket_id\<close> to the integer
  83742, and the response names \<open>get_ticket_status\<close> and carries the number unquoted.
\<close>

theorem ticket_83742:
  \<open>re_match (pattern rule_ticket) ''What is the status of ticket 83742?'' = Some [Some ''83742''] \<and>
   build_arguments lim (arg_types rule_ticket) [Some ''83742'']
       (enumerate 0 (arg_names rule_ticket)) [] = Inr [(''ticket_id'', PInt 83742)] \<and>
   execute_query lim (Some ''What is the status of ticket 83742?'') =
     Return \<lparr>name = ''get_ticket_status'', arguments = ''{"ticket_id": 83742}''\<rparr>\<close>
proof (intro conjI)
  show "re_match (pattern rule_ticket) ''What is the status of ticket 83742?'' = Some [Some ''83742'']"
    by (rule ticket_query_match)
  show "build_arguments lim (arg_types rule_ticket) [Some ''83742'']
       (enumerate 0 (arg_names rule_ticket)) [] = Inr [(''ticket_id'', PInt 83742)]"
    by (simp add: rule_ticket_def list_get_def py_int_83742)
  show \<open>execute_query lim (Some ''What is the status of ticket 83742?'') =
     Return \<lparr>name = ''get_ticket_status'', arguments = ''{"ticket_id": 83742}''\<rparr>\<close>
    by (simp add: execute_query_def handle_def ticket_outcome)
qed

subsection \<open>The meeting query\<close>

text \<open>
  Claim C6. The query "Schedule a meeting on 2025-02-15 at 14:00 in Room A." matches
  the second rule; the three groups are kept as the strings they are (\<^verbatim>\<open>str\<close> is the
  identity on a string), under the keys \<open>date\<close>, \<open>time\<close>, \<open>meeting_room\<close> in this
  order, and the response names \<open>schedule_meeting\<close>.
\<close>

theorem meeting_room_a:
  \<open>coerce lim TStr (Some s) = Inr (PStr s) \<and>
   re_match (pattern rule_meeting) ''Schedule a meeting on 2025-02-15 at 14:00 in Room A.'' =
     Some [Some ''2025-02-15'', Some ''14:00'', Some ''Room A''] \<and>
   build_arguments lim (arg_types rule_meeting) [Some ''2025-02-15'', Some ''14:00'', Some ''Room A'']
       (enumerate 0 (arg_names rule_meeting)) [] =
     Inr [(''date'', PStr ''2025-02-15''), (''time'', PStr ''14:00''),
          (''meeting_room'', PStr ''Room A'')] \<and>
   execute_query lim (Some ''Schedule a meeting on 2025-02-15 at 14:00 in Room A.'') =
     Return \<lparr>name = ''schedule_meeting'',
       arguments = ''{"date": "2025-02-15", "time": "14:00", "meeting_room": "Room A"}''\<rparr>\<close>
proof (intro conjI)
  show "coerce lim TStr (Some s) = Inr (PStr s)" by simp
  show "re_match (pattern rule_meeting) ''Schedule a meeting on 2025-02-15 at 14:00 in Room A.'' =
     Some [Some ''2025-02-15'', Some ''14:00'', Some ''Room A'']"
    by (rule meeting_query_match)
  show "build_arguments lim (arg_types rule_meeting)
       [Some ''2025-02-15'', Some ''14:00'', Some ''Room A'']
       (enumerate 0 (arg_names rule_meeting)) [] =
     Inr [(''date'', PStr ''2025-02-15''), (''time'', PStr ''14:00''),
          (''meeting_room'', PStr ''Room A'')]"
    by (simp add: rule_meeting_def list_get_def)
  show \<open>execute_query lim (Some ''Schedule a meeting on 2025-02-15 at 14:00 in Room A.'') =
     Return \<lparr>name = ''schedule_meeting'',
       arguments = ''{"date": "2025-02-15", "time": "14:00", "meeting_room": "Room A"}''\<rparr>\<close>
    by (simp add: execute_query_def handle_def meeting_outcome)
qed

subsection \<open>No matching rule\<close>

text \<open>
  Claim C7. When no pattern of the table matches the query, the handler answers 404
  with the message "No matching function found for the query"; this is the case of
  "Make me a sandwich." under the table of the program.
\<close>

theorem no_match_404:
  "((\<forall>r\<in>set rules. re_match (pattern r) q = None) \<longrightarrow>
      handle rules lim (Some q) = HTTPException 404 no_match_detail) \<and>
   execute_query lim (Some ''Make me a sandwich.'') =
      HTTPException 404 ''No matching function found for the query''"
proof -
  have "execute_query lim (Some ''Make me a sandwich.'') = HTTPException 404 no_match_detail"
    by (simp add: execute_query_def handle_def resolve_default
      lead_ticket_def lead_meeting_def lead_expense_def lead_bonus_def lead_issue_def)
  then show ?thesis
    by (simp add: handle_def resolve_no_match no_match_detail_def)
qed

theorem no_match_404_witness:
  "re_match (pattern rule_ticket) ''Hello'' = None \<and>
   re_match (pattern rule_meeting) ''Hello'' = None \<and>
   re_match (pattern rule_expense) ''Hello'' = None \<and>
   re_match (pattern rule_bonus) ''Hello'' = None \<and>
   re_match (pattern rule_issue) ''Hello'' = None \<and>
   handle FUNCTION_RULES 0 (Some ''Hello'') = HTTPException 404 no_match_detail"
proof -
  have h: "re_match (pattern rule_ticket) ''Hello'' = None"
    "re_match (pattern rule_meeting) ''Hello'' = None"
    "re_match (pattern rule_expense) ''Hello'' = None"
    "re_match (pattern rule_bonus) ''Hello'' = None"
    "re_match (pattern rule_issue) ''Hello'' = None"
    by (simp_all add: no_lead_no_match
        lead_ticket_def lead_meeting_def lead_expense_def lead_bonus_def lead_issue_def)
  then have "\<forall>r\<in>set FUNCTION_RULES. re_match (pattern r) ''Hello'' = None"
    by (simp add: FUNCTION_RULES_def)
  with no_match_404 [of FUNCTION_RULES "''Hello''" 0] h show ?thesis by blast
qed

subsection \<open>A failing conversion\<close>


subsection \<open>Integer conversion under the table of the program\<close>

text \<open>
  Claim C9, as amended. Under the table of the program every group of a match is
  present, and a group declared integer is a non-empty string of decimal digits. The
  conversion \<^verbatim>\<open>int\<close> of such a string fails only through the interpreter's limit on
  the length of integer literals: when the limit is off (\<open>lim = 0\<close>), or no run of
  digits of the query is longer than the limit, or than 640, the handler never answers
  "Parameter type mismatch". No exception but the HTTP ones leaves the handler.
\<close>

theorem default_table_int_coercion:
  "(r \<in> set FUNCTION_RULES \<and> re_match (pattern r) s = Some v \<longrightarrow>
      length v = length (arg_names r) \<and> length (arg_types r) = length (arg_names r) \<and>
      (\<forall>i<length v. \<exists>d. v ! i = Some d \<and>
          (arg_types r ! i = TInt \<longrightarrow> d \<noteq> [] \<and> list_all is_digit d))) \<and>
   (lim = 0 \<or> max_digit_run s \<le> lim \<or> max_digit_run s \<le> 640 \<longrightarrow>
      execute_query lim (Some s) \<noteq> HTTPException 400 mismatch_detail) \<and>
   (\<forall>e. execute_query lim q \<noteq> Uncaught e)"
proof -
  have a: "length v = length (arg_names r) \<and> length (arg_types r) = length (arg_names r) \<and>
         (\<forall>i<length v. \<exists>d. v ! i = Some d \<and>
            (arg_types r ! i = TInt \<longrightarrow> d \<noteq> [] \<and> list_all is_digit d))"
    if "r \<in> set FUNCTION_RULES \<and> re_match (pattern r) s = Some v"
    using that default_groups by blast
  have b: "execute_query lim (Some s) \<noteq> HTTPException 400 mismatch_detail"
    if ok: "lim = 0 \<or> max_digit_run s \<le> lim \<or> max_digit_run s \<le> 640"
    using resolve_default_member [of lim s]
  proof
    assume "resolve FUNCTION_RULES lim s = HTTPException 404 no_match_detail"
    then show ?thesis by (simp add: execute_query_def handle_def)
  next
    assume "\<exists>r v. r \<in> set FUNCTION_RULES \<and> re_match (pattern r) s = Some v \<and>
      resolve FUNCTION_RULES lim s = apply_rule lim r v"
    then obtain r v where *: "r \<in> set FUNCTION_RULES" "re_match (pattern r) s = Some v"
      "resolve FUNCTION_RULES lim s = apply_rule lim r v" by blast
    with apply_default_ok [OF *(1,2) ok] show ?thesis
      by (simp add: execute_query_def handle_def)
  qed
  have c: "execute_query lim q \<noteq> Uncaught e" for e
  proof (cases q)
    case None
    then show ?thesis by (simp add: execute_query_def handle_def)
  next
    case (Some s)
    from resolve_default_member [of lim s] show ?thesis
    proof
      assume "resolve FUNCTION_RULES lim s = HTTPException 404 no_match_detail"
      then show ?thesis by (simp add: execute_query_def handle_def Some)
    next
      assume "\<exists>r v. r \<in> set FUNCTION_RULES \<and> re_match (pattern r) s = Some v \<and>
        resolve FUNCTION_RULES lim s = apply_rule lim r v"
      then obtain r v where *: "r \<in> set FUNCTION_RULES" "re_match (pattern r) s = Some v"
        "resolve FUNCTION_RULES lim s = apply_rule lim r v" by blast
      from apply_default_cases [OF *(1,2), of lim] *(3) show ?thesis
        by (auto simp: execute_query_def handle_def Some)
    qed
  qed
  from a b c show ?thesis by blast
qed

theorem default_table_int_coercion_witness:
  "rule_ticket \<in> set FUNCTION_RULES \<and>
   re_match (pattern rule_ticket) ''What is the status of ticket 83742?'' = Some [Some ''83742''] \<and>
   length [Some ''83742''] = length (arg_names rule_ticket) \<and>
   max_digit_run ''What is the status of ticket 83742?'' \<le> default_max_str_digits \<and>
   execute_query default_max_str_digits (Some ''What is the status of ticket 83742?'') \<noteq>
     HTTPException 400 mismatch_detail"
proof -
  note w = default_table_int_coercion [where r = rule_ticket
      and s = "''What is the status of ticket 83742?''" and v = "[Some ''83742'']"
      and lim = default_max_str_digits]
  have r: "rule_ticket \<in> set FUNCTION_RULES" by (simp add: FUNCTION_RULES_def)
  have "length ''What is the status of ticket 83742?'' \<le> default_max_str_digits"
    by (simp add: default_max_str_digits_def)
  with max_digit_run_le_length [of "''What is the status of ticket 83742?''"]
  have m: "max_digit_run ''What is the status of ticket 83742?'' \<le> default_max_str_digits"
    by (rule order_trans)
  from w [THEN conjunct1] r ticket_query_match
  have 1: "length [Some ''83742''] = length (arg_names rule_ticket)" by blast
  from w [THEN conjunct2, THEN conjunct1] m
  have 2: "execute_query default_max_str_digits (Some ''What is the status of ticket 83742?'') \<noteq>
     HTTPException 400 mismatch_detail" by blast
  from r ticket_query_match 1 m 2 show ?thesis by blast
qed

text \<open>
  Claim C9 as stated fails under the limit that the interpreter sets by default,
  4300 digits: a ticket number of 4301 digits matches the first rule, its group is
  all digits, and \<^verbatim>\<open>int\<close> raises \<^verbatim>\<open>ValueError\<close>, which the handler answers with 400
  "Parameter type mismatch".
\<close>

theorem long_ticket_is_400:
  "re_match (pattern rule_ticket)
     (''What is the status of ticket '' @ replicate 4301 CHR ''1'' @ ''?'') =
     Some [Some (replicate 4301 CHR ''1'')] \<and>
   list_all is_digit (replicate 4301 CHR ''1'') \<and>
   py_int default_max_str_digits (replicate 4301 CHR ''1'') = Inl ValueError \<and>
   execute_query default_max_str_digits
     (Some (''What is the status of ticket '' @ replicate 4301 CHR ''1'' @ ''?'')) =
     HTTPException 400 mismatch_detail"
proof -
  define n :: nat where "n = 4301"
  define d where "d = replicate n CHR ''1''"
  have n: "640 < n" "default_max_str_digits < n" "0 < default_max_str_digits"
    by (simp_all add: n_def default_max_str_digits_def)
  have l: "length d = n" by (simp add: d_def)
  have d: "d \<noteq> []" "list_all is_digit d"
    using n(1) by (auto simp: d_def is_digit_def list_all_iff)
  have q: "''What is the status of ticket '' @ d @ ''?'' = lead_ticket @ d @ ''?'' @ []"
    by (simp add: lead_ticket_def)
  have m: "re_match (pattern rule_ticket) (lead_ticket @ d @ ''?'' @ []) = Some [Some d]"
    using d by (rule ticket_match)
  have i: "py_int default_max_str_digits d = Inl ValueError"
    using n by (simp add: py_int_digits [OF d] l)
  have p: "prefix lead_ticket (lead_ticket @ d @ ''?'' @ [])" by simp
  have "resolve FUNCTION_RULES default_max_str_digits (lead_ticket @ d @ ''?'' @ []) =
      HTTPException 400 mismatch_detail"
    using p by (simp only: resolve_default if_True m option.case apply_ticket i sum.case)
  then have "re_match (pattern rule_ticket) (''What is the status of ticket '' @ d @ ''?'') =
     Some [Some d] \<and>
   list_all is_digit d \<and>
   py_int default_max_str_digits d = Inl ValueError \<and>
   execute_query default_max_str_digits (Some (''What is the status of ticket '' @ d @ ''?'')) =
     HTTPException 400 mismatch_detail"
    unfolding q using m d(2) i by (simp add: execute_query_def handle_def)
  then show ?thesis unfolding d_def n_def .
qed

subsection \<open>Greedy captures\<close>

text \<open>
  Claim C10, as amended. The last group of the meeting rule and of the issue rule is
  greedy up to the first newline after it starts: when the text after \<open>in\<close> holds
  several periods before its first newline, \<open>meeting_room\<close> is everything before the
  last of them (here \<open>tail\<close> is what follows that period on the line, \<open>rest\<close> the
  lines after it); and the group \<open>department\<close> is everything before the last
  \<open>department.\<close> that comes before the first newline. The response carries
  these captures; for the issue rule it does so when the issue code passes the limit
  on the length of integer literals. The query
  "Schedule a meeting on 2025-02-15 at 14:00 in Room A. Thanks." gives the room
  "Room A. Thanks".
\<close>

theorem greedy_last_terminator:
  \<open>(d \<noteq> [] \<and> list_all is_date_char d \<and> t \<noteq> [] \<and> list_all is_time_char t \<and>
    newline \<notin> set (room @ tail) \<and> CHR ''.'' \<notin> set tail \<and> (rest = [] \<or> hd rest = newline) \<longrightarrow>
    re_match (pattern rule_meeting)
      (''Schedule a meeting on '' @ d @ '' at '' @ t @ '' in '' @ room @ ''.'' @ tail @ rest) =
      Some [Some d, Some t, Some room] \<and>
    execute_query lim
      (Some (''Schedule a meeting on '' @ d @ '' at '' @ t @ '' in '' @ room @ ''.'' @ tail @ rest)) =
    Return \<lparr>name = ''schedule_meeting'',
            arguments = json_dumps [(''date'', PStr d), (''time'', PStr t),
                                    (''meeting_room'', PStr room)]\<rparr>) \<and>
   (n \<noteq> [] \<and> list_all is_digit n \<and>
    newline \<notin> set (dept @ tail) \<and> \<not> sublist '' department.'' tail \<and>
    (rest = [] \<or> hd rest = newline) \<longrightarrow>
    re_match (pattern rule_issue)
      (''Report office issue '' @ n @ '' for the '' @ dept @ '' department.'' @ tail @ rest) =
      Some [Some n, Some dept] \<and>
    (lim = 0 \<or> length n \<le> lim \<or> length n \<le> 640 \<longrightarrow>
     execute_query lim
       (Some (''Report office issue '' @ n @ '' for the '' @ dept @ '' department.'' @ tail @ rest)) =
     Return \<lparr>name = ''report_office_issue'',
            arguments = json_dumps [(''issue_code'', PInt (int (dec_value n))),
                                    (''department'', PStr dept)]\<rparr>)) \<and>
   execute_query lim (Some ''Schedule a meeting on 2025-02-15 at 14:00 in Room A. Thanks.'') =
     Return \<lparr>name = ''schedule_meeting'',
       arguments = ''{"date": "2025-02-15", "time": "14:00", "meeting_room": "Room A. Thanks"}''\<rparr>\<close>
proof (intro conjI impI)
  assume a: "d \<noteq> [] \<and> list_all is_date_char d \<and> t \<noteq> [] \<and> list_all is_time_char t \<and>
    newline \<notin> set (room @ tail) \<and> CHR ''.'' \<notin> set tail \<and> (rest = [] \<or> hd rest = newline)"
  then have "re_match (pattern rule_meeting)
      (lead_meeting @ d @ '' at '' @ t @ '' in '' @ room @ ''.'' @ tail @ rest) =
      Some [Some d, Some t, Some room]"
    by (intro meeting_match) simp_all
  then show "re_match (pattern rule_meeting)
      (''Schedule a meeting on '' @ d @ '' at '' @ t @ '' in '' @ room @ ''.'' @ tail @ rest) =
      Some [Some d, Some t, Some room]"
    by (simp add: lead_meeting_def)
  from a have "resolve FUNCTION_RULES lim
           (lead_meeting @ d @ '' at '' @ t @ '' in '' @ room @ ''.'' @ tail @ rest) =
         Return \<lparr>name = ''schedule_meeting'',
            arguments = json_dumps [(''date'', PStr d), (''time'', PStr t),
                                    (''meeting_room'', PStr room)]\<rparr>"
    by (intro resolve_meeting) simp_all
  then show "execute_query lim
      (Some (''Schedule a meeting on '' @ d @ '' at '' @ t @ '' in '' @ room @ ''.'' @ tail @ rest)) =
    Return \<lparr>name = ''schedule_meeting'',
            arguments = json_dumps [(''date'', PStr d), (''time'', PStr t),
                                    (''meeting_room'', PStr room)]\<rparr>"
    by (simp add: execute_query_def handle_def lead_meeting_def)
next
  assume a: "n \<noteq> [] \<and> list_all is_digit n \<and>
    newline \<notin> set (dept @ tail) \<and> \<not> sublist '' department.'' tail \<and>
    (rest = [] \<or> hd rest = newline)"
  then have "re_match (pattern rule_issue)
      (lead_issue @ n @ '' for the '' @ dept @ '' department.'' @ tail @ rest) =
      Some [Some n, Some dept]"
    by (intro issue_match_line) simp_all
  then show "re_match (pattern rule_issue)
      (''Report office issue '' @ n @ '' for the '' @ dept @ '' department.'' @ tail @ rest) =
      Some [Some n, Some dept]"
    by (simp add: lead_issue_def)
  assume b: "lim = 0 \<or> length n \<le> lim \<or> length n \<le> 640"
  from a have "resolve FUNCTION_RULES lim
           (lead_issue @ n @ '' for the '' @ dept @ '' department.'' @ tail @ rest) =
         (if 640 < length n \<and> 0 < lim \<and> lim < length n
          then HTTPException 400 mismatch_detail
          else Return \<lparr>name = ''report_office_issue'',
                 arguments = json_dumps [(''issue_code'', PInt (int (dec_value n))),
                                         (''department'', PStr dept)]\<rparr>)"
    by (intro resolve_issue) simp_all
  moreover from b have "\<not> (640 < length n \<and> 0 < lim \<and> lim < length n)" by auto
  ultimately show "execute_query lim
      (Some (''Report office issue '' @ n @ '' for the '' @ dept @ '' department.'' @ tail @ rest)) =
    Return \<lparr>name = ''report_office_issue'',
            arguments = json_dumps [(''issue_code'', PInt (int (dec_value n))),
                                    (''department'', PStr dept)]\<rparr>"
    by (simp add: execute_query_def handle_def lead_issue_def)
next
  show \<open>execute_query lim (Some ''Schedule a meeting on 2025-02-15 at 14:00 in Room A. Thanks.'') =
     Return \<lparr>name = ''schedule_meeting'',
       arguments = ''{"date": "2025-02-15", "time": "14:00", "meeting_room": "Room A. Thanks"}''\<rparr>\<close>
    by (simp add: execute_query_def handle_def meeting_thanks_outcome)
qed

theorem greedy_last_terminator_witness:
  \<open>re_match (pattern rule_meeting)
     (''Schedule a meeting on 2025-02-15 at 14:00 in Room A. Floor 2. Bye'' @ [newline] @ ''Next.'') =
     Some [Some ''2025-02-15'', Some ''14:00'', Some ''Room A. Floor 2''] \<and>
   execute_query 0
     (Some (''Schedule a meeting on 2025-02-15 at 14:00 in Room A. Floor 2. Bye'' @ [newline] @ ''Next.'')) =
     Return \<lparr>name = ''schedule_meeting'',
       arguments = ''{"date": "2025-02-15", "time": "14:00", "meeting_room": "Room A. Floor 2"}''\<rparr> \<and>
   re_match (pattern rule_issue)
     ''Report office issue 45321 for the Facilities department. Also the HR department.'' =
     Some [Some ''45321'', Some ''Facilities department. Also the HR''] \<and>
   length ''45321'' \<le> default_max_str_digits \<and>
   execute_query default_max_str_digits
     (Some ''Report office issue 45321 for the Facilities department. Also the HR department.'') =
     Return \<lparr>name = ''report_office_issue'',
       arguments = ''{"issue_code": 45321, "department": "Facilities department. Also the HR"}''\<rparr>\<close>
proof -
  note g = greedy_last_terminator [where lim = 0 and d = "''2025-02-15''" and t = "''14:00''"
      and room = "''Room A. Floor 2''" and tail = "'' Bye''" and rest = "newline # ''Next.''"
      and n = "''1''" and dept = "''x''"]
  note h = greedy_last_terminator [where lim = default_max_str_digits and d = "''1''" and t = "''1''"
      and room = "''x''" and tail = "[]" and rest = "[]"
      and n = "''45321''" and dept = "''Facilities department. Also the HR''"]
  have 1: "re_match (pattern rule_meeting)
      (''Schedule a meeting on '' @ ''2025-02-15'' @ '' at '' @ ''14:00'' @ '' in '' @
             ''Room A. Floor 2'' @ ''.'' @ '' Bye'' @ newline # ''Next.'') =
      Some [Some ''2025-02-15'', Some ''14:00'', Some ''Room A. Floor 2''] \<and>
    execute_query 0
      (Some (''Schedule a meeting on '' @ ''2025-02-15'' @ '' at '' @ ''14:00'' @ '' in '' @
             ''Room A. Floor 2'' @ ''.'' @ '' Bye'' @ newline # ''Next.'')) =
    Return \<lparr>name = ''schedule_meeting'',
            arguments = json_dumps [(''date'', PStr ''2025-02-15''), (''time'', PStr ''14:00''),
                                    (''meeting_room'', PStr ''Room A. Floor 2'')]\<rparr>"
    by (rule g [THEN conjunct1, THEN mp])
       (simp add: is_digit_def is_date_char_def is_time_char_def newline_def)
  have 2: "re_match (pattern rule_issue)
      (''Report office issue '' @ ''45321'' @ '' for the '' @
             ''Facilities department. Also the HR'' @ '' department.'' @ [] @ []) =
      Some [Some ''45321'', Some ''Facilities department. Also the HR''] \<and>
    (default_max_str_digits = 0 \<or> length ''45321'' \<le> default_max_str_digits \<or>
       length ''45321'' \<le> 640 \<longrightarrow>
     execute_query default_max_str_digits
      (Some (''Report office issue '' @ ''45321'' @ '' for the '' @
             ''Facilities department. Also the HR'' @ '' department.'' @ [] @ [])) =
     Return \<lparr>name = ''report_office_issue'',
            arguments = json_dumps [(''issue_code'', PInt (int (dec_value ''45321''))),
                                    (''department'', PStr ''Facilities department. Also the HR'')]\<rparr>)"
    by (rule h [THEN conjunct2, THEN conjunct1, THEN mp])
       (simp add: is_digit_def newline_def)
  have b: "length ''45321'' \<le> default_max_str_digits"
    by (simp add: default_max_str_digits_def)
  then have 3: "execute_query default_max_str_digits
      (Some (''Report office issue '' @ ''45321'' @ '' for the '' @
             ''Facilities department. Also the HR'' @ '' department.'' @ [] @ [])) =
     Return \<lparr>name = ''report_office_issue'',
            arguments = json_dumps [(''issue_code'', PInt (int (dec_value ''45321''))),
                                    (''department'', PStr ''Facilities department. Also the HR'')]\<rparr>"
    using 2 [THEN conjunct2] by blast
  have j1: \<open>json_dumps [(''date'', PStr ''2025-02-15''), (''time'', PStr ''14:00''),
                                    (''meeting_room'', PStr ''Room A. Floor 2'')] =
      ''{"date": "2025-02-15", "time": "14:00", "meeting_room": "Room A. Floor 2"}''\<close>
    by (simp add: json_dumps_def json_string_def json_escape_char_def)
  have v: "int (dec_value ''45321'') = 45321"
    by (simp add: dec_value_def digit_val_def)
  have j2: \<open>json_dumps [(''issue_code'', PInt 45321),
                 (''department'', PStr ''Facilities department. Also the HR'')] =
      ''{"issue_code": 45321, "department": "Facilities department. Also the HR"}''\<close>
    by (simp add: json_dumps_def json_string_def json_escape_char_def dec_of_int_def
      dec_of_nat_lt10 dec_of_nat_ge10 hex_digit_def)
  from 1 2 [THEN conjunct1] 3 b show ?thesis unfolding j1 v j2 by simp
qed

text \<open>
  Claim C10 as stated fails on a query of several lines: \<^verbatim>\<open>.\<close> does not match a
  newline, so the capture ends on the first line. With a later period on the second
  line the room is the text before the first period of the query, and with a later
  \<open>department.\<close> on the second line the department is the text before the
  first one.
\<close>

theorem greedy_stops_at_newline:
  \<open>execute_query default_max_str_digits
     (Some (''Schedule a meeting on 2025-02-15 at 14:00 in Room A.'' @ [CHR 0x0A] @ ''Thanks.'')) =
     Return \<lparr>name = ''schedule_meeting'',
       arguments = ''{"date": "2025-02-15", "time": "14:00", "meeting_room": "Room A"}''\<rparr> \<and>
   execute_query default_max_str_digits
     (Some (''Report office issue 45321 for the Facilities department.'' @ [CHR 0x0A] @
            ''Also the HR department.'')) =
     Return \<lparr>name = ''report_office_issue'',
       arguments = ''{"issue_code": 45321, "department": "Facilities"}''\<rparr>\<close>
  using meeting_two_lines_outcome [of default_max_str_digits] issue_two_lines_outcome
  by (simp only: execute_query_def handle_def option.case simp_thms)

end
